theory Spec2Isabelle
  imports Main "HOL-Library.Word" "HOL-Library.Signed_Division"
begin

section \<open>Platform and failure model\<close>

text \<open>
  The embedding follows \<^verbatim>\<open>src/main.c\<close> on an LP64, little-endian platform:
  \<^verbatim>\<open>sizeof(int) = 4\<close>, \<^verbatim>\<open>sizeof(ssize_t) = 8\<close>, a \<^verbatim>\<open>char\<close> is one byte.
  A buffer (a page, a row image) is a list of bytes and a pointer into it is an
  offset of type \<open>int\<close>, so that pointer arithmetic with a negative \<^verbatim>\<open>int\<close> is
  expressible. Every way the functions embedded here stop the program is a value
  of \<open>error\<close>: their \<^verbatim>\<open>exit(EXIT_FAILURE)\<close> calls each have their constructor, an
  access outside the object pointed into (undefined behaviour in C) is
  \<open>Out_of_bounds_access\<close>, and an \<^verbatim>\<open>int\<close> addition that leaves the range of \<^verbatim>\<open>int\<close>
  is \<open>Signed_overflow\<close>. A value of type \<^verbatim>\<open>int\<close> is a HOL \<open>int\<close>; what is read
  from memory is in the range of 32 bits by \<open>load_int\<close>.

  Embedded are the row codec, the pager (\<open>pager_open\<close>, \<open>get_page\<close>,
  \<open>pager_flush\<close>), the node accessors, \<open>db_open\<close>, the cursor functions and the two
  statements \<open>execute_insert\<close> and \<open>execute_select\<close>. \<^verbatim>\<open>leaf_node_insert\<close> and
  \<^verbatim>\<open>leaf_node_split_and_insert\<close> are called from nowhere in the source and are
  left out, as are \<^verbatim>\<open>db_close\<close> and the command loop.
\<close>

type_synonym byte = "8 word"

datatype error =
    Unable_to_open_file
  | Corrupt_file
  | Page_number_out_of_bounds
  | Error_reading_file
  | Flush_null_page
  | Error_seeking
  | Error_writing
  | Internal_node_search_unimplemented
  | Out_of_bounds_access
  | Signed_overflow

definition in_bounds :: "byte list \<Rightarrow> int \<Rightarrow> int \<Rightarrow> bool" where
  "in_bounds m off n \<longleftrightarrow> 0 \<le> off \<and> 0 \<le> n \<and> off + n \<le> int (length m)"

text \<open>Reading \<open>n\<close> bytes at an offset, and overwriting the bytes at an offset.\<close>

definition load :: "byte list \<Rightarrow> int \<Rightarrow> int \<Rightarrow> error + byte list" where
  "load m off n =
     (if in_bounds m off n then Inr (take (nat n) (drop (nat off) m))
      else Inl Out_of_bounds_access)"

definition store :: "byte list \<Rightarrow> int \<Rightarrow> byte list \<Rightarrow> error + byte list" where
  "store m off bs =
     (if in_bounds m off (int (length bs))
      then Inr (take (nat off) m @ bs @ drop (nat off + length bs) m)
      else Inl Out_of_bounds_access)"

text \<open>
  Little-endian images of integers. \<open>encode_le n x\<close> is the \<open>n\<close>-byte two's
  complement image of \<open>x\<close> (\<open>mod\<close> and \<open>div\<close> on \<open>int\<close> round down, so a negative
  \<open>x\<close> gets its sign bytes); \<open>decode_le\<close> is the unsigned value of an image.
\<close>

fun encode_le :: "nat \<Rightarrow> int \<Rightarrow> byte list" where
  "encode_le 0 x = []"
| "encode_le (Suc n) x = word_of_int (x mod 256) # encode_le n (x div 256)"

fun decode_le :: "byte list \<Rightarrow> int" where
  "decode_le [] = 0"
| "decode_le (b # bs) = uint b + 256 * decode_le bs"

text \<open>\<^verbatim>\<open>*(int*)(m + off)\<close> as an rvalue and as an lvalue.\<close>

definition load_int :: "byte list \<Rightarrow> int \<Rightarrow> error + int" where
  "load_int m off =
     (case load m off 4 of
        Inl e \<Rightarrow> Inl e
      | Inr bs \<Rightarrow> Inr (sint (word_of_int (decode_le bs) :: 32 word)))"

definition store_int :: "byte list \<Rightarrow> int \<Rightarrow> int \<Rightarrow> error + byte list" where
  "store_int m off v = store m off (encode_le 4 v)"

section \<open>Row codec\<close>

definition COLUMN_USERNAME_SIZE :: int where "COLUMN_USERNAME_SIZE = 32"
definition COLUMN_EMAIL_SIZE :: int where "COLUMN_EMAIL_SIZE = 255"
definition TABLE_MAX_PAGES :: int where "TABLE_MAX_PAGES = 100"

text \<open>
  \<^verbatim>\<open>typedef struct { ssize_t id; char username[33]; char email[256]; } Row;\<close>
  The two arrays are byte lists; the C type fixes their lengths, which the predicate
  \<open>Row_sized\<close> records.
\<close>

record Row =
  id_Row :: "64 word"
  username :: "byte list"
  email :: "byte list"

definition ID_OFFSET :: int where "ID_OFFSET = 0"
definition ID_SIZE :: int where "ID_SIZE = 8"
definition USERNAME_SIZE :: int where "USERNAME_SIZE = COLUMN_USERNAME_SIZE + 1"
definition USERNAME_OFFSET :: int where "USERNAME_OFFSET = ID_OFFSET + ID_SIZE"
definition EMAIL_SIZE :: int where "EMAIL_SIZE = COLUMN_EMAIL_SIZE + 1"
definition EMAIL_OFFSET :: int where "EMAIL_OFFSET = USERNAME_OFFSET + USERNAME_SIZE"
definition ROW_SIZE :: int where "ROW_SIZE = ID_SIZE + USERNAME_SIZE + EMAIL_SIZE"

definition PAGE_SIZE :: int where "PAGE_SIZE = 4096"
definition ROWS_PER_PAGE :: int where "ROWS_PER_PAGE = PAGE_SIZE sdiv ROW_SIZE"
definition TABLE_MAX_ROWS :: int where "TABLE_MAX_ROWS = ROWS_PER_PAGE * TABLE_MAX_PAGES"

definition Row_sized :: "Row \<Rightarrow> bool" where
  "Row_sized r \<longleftrightarrow>
     length (username r) = nat USERNAME_SIZE \<and> length (email r) = nat EMAIL_SIZE"

text \<open>The string a \<^verbatim>\<open>char\<close> array holds: its bytes before the first NUL.\<close>

definition c_str :: "byte list \<Rightarrow> byte list" where
  "c_str bs = takeWhile (\<lambda>c. c \<noteq> 0) bs"

text \<open>
  \<^verbatim>\<open>strncpy(dest, src, n)\<close> produces exactly \<open>n\<close> bytes: the bytes of \<open>src\<close> before
  its first NUL, at most \<open>n\<close> of them, then NUL padding. It reads \<open>src\<close> until a NUL
  or until \<open>n\<close> bytes are read, which leaves the source array when that is shorter
  than \<open>n\<close> and holds no NUL.
\<close>

definition strncpy :: "byte list \<Rightarrow> nat \<Rightarrow> error + byte list" where
  "strncpy src n =
     (if length src < n \<and> 0 \<notin> set src then Inl Out_of_bounds_access
      else let s = c_str (take n src) in Inr (s @ replicate (n - length s) 0))"

definition serialize_row :: "Row \<Rightarrow> byte list \<Rightarrow> int \<Rightarrow> error + byte list" where
  "serialize_row source m destination =
     (case store m (destination + ID_OFFSET) (encode_le (nat ID_SIZE) (uint (id_Row source))) of
        Inl e \<Rightarrow> Inl e
      | Inr m1 \<Rightarrow>
     (case strncpy (username source) (nat USERNAME_SIZE) of
        Inl e \<Rightarrow> Inl e
      | Inr u \<Rightarrow>
     (case store m1 (destination + USERNAME_OFFSET) u of
        Inl e \<Rightarrow> Inl e
      | Inr m2 \<Rightarrow>
     (case strncpy (email source) (nat EMAIL_SIZE) of
        Inl e \<Rightarrow> Inl e
      | Inr em \<Rightarrow> store m2 (destination + EMAIL_OFFSET) em))))"

definition deserialize_row :: "byte list \<Rightarrow> int \<Rightarrow> error + Row" where
  "deserialize_row m source =
     (case load m (source + ID_OFFSET) ID_SIZE of
        Inl e \<Rightarrow> Inl e
      | Inr i \<Rightarrow>
     (case load m (source + USERNAME_OFFSET) USERNAME_SIZE of
        Inl e \<Rightarrow> Inl e
      | Inr u \<Rightarrow>
     (case load m (source + EMAIL_OFFSET) EMAIL_SIZE of
        Inl e \<Rightarrow> Inl e
      | Inr em \<Rightarrow>
          Inr \<lparr>id_Row = word_of_int (decode_le i), username = u, email = em\<rparr>)))"

section \<open>Pager\<close>

text \<open>
  \<^verbatim>\<open>typedef struct { int file_descriptor; int file_length; int num_pages;
  void* pages[TABLE_MAX_PAGES]; } Pager;\<close>
  Each non-NULL entry of \<^verbatim>\<open>pages\<close> points to its own \<^verbatim>\<open>malloc\<close>ed buffer, so the
  array is a function from the index to the buffer's bytes, \<open>None\<close> for NULL. Only
  the indices below \<open>TABLE_MAX_PAGES\<close> exist in C; the operations check this before
  they index.
\<close>

record Pager =
  file_descriptor :: int
  file_length :: int
  num_pages :: int
  pages :: "nat \<Rightarrow> byte list option"

record Table =
  num_rows :: int
  pager :: Pager
  root_page_num :: int

text \<open>
  A \<^verbatim>\<open>Cursor\<close> holds a pointer to its table; the model passes the table next to the
  cursor instead.
\<close>

record Cursor =
  row_num :: int
  page_num :: int
  cell_num :: int
  end_of_table :: bool

datatype StatementType = STATEMENT_INSERT | STATEMENT_SELECT

datatype ExecuteResult = EXECUTE_SUCCESS | EXECUTE_DUPLICATE_KEY | EXECUTE_TABLE_FULL

record Statement =
  type_Statement :: StatementType
  row_to_insert :: Row

text \<open>
  What the program gets from outside: the results of the system calls and the
  indeterminate contents of freshly \<^verbatim>\<open>malloc\<close>ed memory. A page is loaded at most
  once while a database is open (no entry of \<^verbatim>\<open>pages\<close> is reset before
  \<^verbatim>\<open>db_close\<close>), so the buffer \<^verbatim>\<open>malloc\<close> returns for it and the result of its one
  \<^verbatim>\<open>read\<close> are indexed by the page number. \<open>read_page\<close> is \<open>None\<close> when \<^verbatim>\<open>read\<close>
  returns -1 and otherwise the bytes it delivered (none at end of file).
\<close>

record Env =
  open_result :: int
  lseek_end_result :: int
  malloc_page :: "int \<Rightarrow> byte list"
  read_page :: "int \<Rightarrow> byte list option"
  lseek_set_result :: "int \<Rightarrow> int"
  write_result :: "int \<Rightarrow> int"
  malloc_Table :: Table
  malloc_Cursor :: Cursor

definition INT_MAX :: int where "INT_MAX = 2147483647"

text \<open>Conversion of an \<^verbatim>\<open>off_t\<close> or \<^verbatim>\<open>ssize_t\<close> value to \<^verbatim>\<open>int\<close>: the low 32 bits.\<close>

definition to_int :: "int \<Rightarrow> int" where
  "to_int x = sint (word_of_int x :: 32 word)"

definition pager_open :: "Env \<Rightarrow> error + Pager" where
  "pager_open env =
     (let fd = open_result env in
      if fd = - 1 then Inl Unable_to_open_file
      else
        let file_length = lseek_end_result env in
        if file_length smod PAGE_SIZE \<noteq> 0 then Inl Corrupt_file
        else Inr \<lparr>file_descriptor = fd,
                  file_length = to_int file_length,
                  num_pages = to_int (file_length sdiv PAGE_SIZE),
                  pages = (\<lambda>i. None)\<rparr>)"

text \<open>\<^verbatim>\<open>read(fd, page, PAGE_SIZE)\<close> delivering \<open>bs\<close> overwrites the front of the buffer.\<close>

definition read_into :: "byte list \<Rightarrow> byte list \<Rightarrow> byte list" where
  "read_into page bs = (let n = min (length bs) (nat PAGE_SIZE) in take n bs @ drop n page)"

text \<open>
  \<open>get_page\<close> returns the bytes of the buffer it returns a pointer to, and the
  pager as it leaves it. After the guard of its first line it indexes
  \<^verbatim>\<open>pager->pages[page_num]\<close>, which is outside the array for a negative index and
  for an index from \<open>TABLE_MAX_PAGES\<close> on.
\<close>

text \<open>
  The page count \<open>get_page\<close> computes in its local \<^verbatim>\<open>num_pages\<close>: the whole pages of
  the file, and one more for a partial page at its end.
\<close>

definition file_num_pages :: "Pager \<Rightarrow> int" where
  "file_num_pages pgr =
     (let n = file_length pgr sdiv PAGE_SIZE in
      if file_length pgr smod PAGE_SIZE \<noteq> 0 then n + 1 else n)"

definition get_page :: "Env \<Rightarrow> Pager \<Rightarrow> int \<Rightarrow> error + (byte list \<times> Pager)" where
  "get_page env pgr pnum =
     (if pnum > TABLE_MAX_PAGES then Inl Page_number_out_of_bounds
      else if pnum < 0 \<or> TABLE_MAX_PAGES \<le> pnum then Inl Out_of_bounds_access
      else
        (case pages pgr (nat pnum) of
           Some page \<Rightarrow> Inr (page, pgr)
         | None \<Rightarrow>
             let page = malloc_page env pnum in
             (case (if pnum \<le> file_num_pages pgr
                    then (case read_page env pnum of
                            None \<Rightarrow> Inl Error_reading_file
                          | Some bs \<Rightarrow> Inr (read_into page bs))
                    else Inr page) of
                Inl e \<Rightarrow> Inl e
              | Inr page' \<Rightarrow>
                  Inr (page',
                       pgr\<lparr>pages := (pages pgr)(nat pnum := Some page'),
                           num_pages := (if pnum \<ge> num_pages pgr then pnum + 1
                                         else num_pages pgr)\<rparr>))))"

definition pager_flush :: "Env \<Rightarrow> Pager \<Rightarrow> int \<Rightarrow> error + Pager" where
  "pager_flush env pgr pnum =
     (if pnum < 0 \<or> TABLE_MAX_PAGES \<le> pnum then Inl Out_of_bounds_access
      else if pages pgr (nat pnum) = None then Inl Flush_null_page
      else if lseek_set_result env pnum = - 1 then Inl Error_seeking
      else if write_result env pnum = - 1 then Inl Error_writing
      else Inr pgr)"

text \<open>
  The operations on an open pager, and a run of them: the pager after each
  operation, up to the first one that stops the program.
\<close>

datatype Pager_op = Get_page int | Pager_flush int

fun pager_step :: "Env \<Rightarrow> Pager \<Rightarrow> Pager_op \<Rightarrow> error + Pager" where
  "pager_step env pgr (Get_page pnum) =
     (case get_page env pgr pnum of Inl e \<Rightarrow> Inl e | Inr (page, pgr') \<Rightarrow> Inr pgr')"
| "pager_step env pgr (Pager_flush pnum) = pager_flush env pgr pnum"

fun pager_run :: "Env \<Rightarrow> Pager \<Rightarrow> Pager_op list \<Rightarrow> error + Pager list" where
  "pager_run env pgr [] = Inr []"
| "pager_run env pgr (x # xs) =
     (case pager_step env pgr x of
        Inl e \<Rightarrow> Inl e
      | Inr pgr' \<Rightarrow>
          (case pager_run env pgr' xs of
             Inl e \<Rightarrow> Inl e
           | Inr trace \<Rightarrow> Inr (pgr' # trace)))"

fun fetched :: "Pager_op list \<Rightarrow> int list" where
  "fetched [] = []"
| "fetched (Get_page pnum # xs) = pnum # fetched xs"
| "fetched (Pager_flush pnum # xs) = fetched xs"

section \<open>Node layout\<close>

definition NODE_INTERNAL :: int where "NODE_INTERNAL = 0"
definition NODE_LEAF :: int where "NODE_LEAF = 1"

definition NODE_TYPE_SIZE :: int where "NODE_TYPE_SIZE = 4"
definition NODE_TYPE_OFFSET :: int where "NODE_TYPE_OFFSET = 0"
definition IS_ROOT_SIZE :: int where "IS_ROOT_SIZE = 4"
definition IS_ROOT_OFFSET :: int where "IS_ROOT_OFFSET = NODE_TYPE_SIZE"
definition PARENT_POINTER_SIZE :: int where "PARENT_POINTER_SIZE = 4"
definition PARENT_POINTER_OFFSET :: int where
  "PARENT_POINTER_OFFSET = IS_ROOT_OFFSET + IS_ROOT_SIZE"
definition COMMON_NODE_HEADER_SIZE :: int where
  "COMMON_NODE_HEADER_SIZE = NODE_TYPE_SIZE + IS_ROOT_SIZE + PARENT_POINTER_SIZE"

definition LEAF_NODE_NUM_CELLS_SIZE :: int where "LEAF_NODE_NUM_CELLS_SIZE = 4"
definition LEAF_NODE_NUM_CELLS_OFFSET :: int where
  "LEAF_NODE_NUM_CELLS_OFFSET = COMMON_NODE_HEADER_SIZE"
definition LEAF_NODE_HEADER_SIZE :: int where
  "LEAF_NODE_HEADER_SIZE = COMMON_NODE_HEADER_SIZE + LEAF_NODE_NUM_CELLS_SIZE"

definition LEAF_NODE_KEY_SIZE :: int where "LEAF_NODE_KEY_SIZE = 4"
definition LEAF_NODE_KEY_OFFSET :: int where "LEAF_NODE_KEY_OFFSET = 0"
definition LEAF_NODE_VALUE_SIZE :: int where "LEAF_NODE_VALUE_SIZE = ROW_SIZE"
definition LEAF_NODE_VALUE_OFFSET :: int where
  "LEAF_NODE_VALUE_OFFSET = LEAF_NODE_KEY_OFFSET + LEAF_NODE_KEY_SIZE"
definition LEAF_NODE_CELL_SIZE :: int where
  "LEAF_NODE_CELL_SIZE = LEAF_NODE_KEY_SIZE + LEAF_NODE_VALUE_SIZE"
definition LEAF_NODE_SPACE_FOR_CELLS :: int where
  "LEAF_NODE_SPACE_FOR_CELLS = PAGE_SIZE - LEAF_NODE_HEADER_SIZE"
definition LEAF_NODE_MAX_CELLS :: int where
  "LEAF_NODE_MAX_CELLS = LEAF_NODE_SPACE_FOR_CELLS sdiv LEAF_NODE_CELL_SIZE"

text \<open>
  The accessors return a pointer into the node; here, the offset of that pointer
  from the node's first byte. \<open>leaf_node_cell\<close> is the source's expression
  \<^verbatim>\<open>node + LEAF_NODE_HEADER_SIZE + cell_num + LEAF_NODE_CELL_SIZE\<close>.
\<close>

definition leaf_node_cell :: "int \<Rightarrow> int" where
  "leaf_node_cell cnum = LEAF_NODE_HEADER_SIZE + cnum + LEAF_NODE_CELL_SIZE"

definition leaf_node_num_cells :: int where
  "leaf_node_num_cells = LEAF_NODE_NUM_CELLS_OFFSET"

definition leaf_node_key :: "int \<Rightarrow> int" where
  "leaf_node_key cnum = leaf_node_cell cnum"

definition leaf_node_value :: "int \<Rightarrow> int" where
  "leaf_node_value cnum = leaf_node_cell cnum + LEAF_NODE_KEY_SIZE"

definition set_node_type :: "byte list \<Rightarrow> int \<Rightarrow> error + byte list" where
  "set_node_type node t = store_int node NODE_TYPE_OFFSET t"

definition get_node_type :: "byte list \<Rightarrow> error + int" where
  "get_node_type node = load_int node NODE_TYPE_OFFSET"

definition initialize_leaf_node :: "byte list \<Rightarrow> error + byte list" where
  "initialize_leaf_node node =
     (case set_node_type node NODE_LEAF of
        Inl e \<Rightarrow> Inl e
      | Inr node' \<Rightarrow> store_int node' leaf_node_num_cells 0)"

section \<open>Table and cursor\<close>

definition db_open :: "Env \<Rightarrow> error + Table" where
  "db_open env =
     (case pager_open env of
        Inl e \<Rightarrow> Inl e
      | Inr pgr \<Rightarrow>
          let table = (malloc_Table env)\<lparr>pager := pgr, root_page_num := 0\<rparr> in
          if num_pages pgr = 0 then
            (case get_page env pgr 0 of
               Inl e \<Rightarrow> Inl e
             | Inr (root_node, pgr') \<Rightarrow>
                 (case initialize_leaf_node root_node of
                    Inl e \<Rightarrow> Inl e
                  | Inr node' \<Rightarrow>
                      Inr (table\<lparr>pager := pgr'\<lparr>pages := (pages pgr')(0 := Some node')\<rparr>\<rparr>)))
          else Inr table)"

text \<open>
  The binary search loop of \<open>leaf_node_find\<close>. \<^verbatim>\<open>/\<close> on \<^verbatim>\<open>int\<close> truncates (\<open>sdiv\<close>)
  and the sum of the two indices must not leave the range of \<^verbatim>\<open>int\<close>. The loop runs
  while the indices differ, which for a negative cell count can be forever: not
  returning is \<open>None\<close>.
\<close>

partial_function (option) leaf_node_find_loop ::
  "byte list \<Rightarrow> int \<Rightarrow> int \<Rightarrow> int \<Rightarrow> (error + int) option" where
  "leaf_node_find_loop node key min_index one_past_max_index =
     (if one_past_max_index \<noteq> min_index then
        (if min_index + one_past_max_index > INT_MAX
            \<or> min_index + one_past_max_index < - INT_MAX - 1
         then Some (Inl Signed_overflow)
         else
           let index = (min_index + one_past_max_index) sdiv 2 in
           (case load_int node (leaf_node_key index) of
              Inl e \<Rightarrow> Some (Inl e)
            | Inr key_at_index \<Rightarrow>
                if key = key_at_index then Some (Inr index)
                else if key < key_at_index
                  then leaf_node_find_loop node key min_index index
                  else leaf_node_find_loop node key (index + 1) one_past_max_index))
      else Some (Inr min_index))"

definition leaf_node_find ::
  "Env \<Rightarrow> Table \<Rightarrow> int \<Rightarrow> int \<Rightarrow> (error + (Cursor \<times> Table)) option" where
  "leaf_node_find env table pnum key =
     (case get_page env (pager table) pnum of
        Inl e \<Rightarrow> Some (Inl e)
      | Inr (node, pgr) \<Rightarrow>
          (case load_int node leaf_node_num_cells of
             Inl e \<Rightarrow> Some (Inl e)
           | Inr num_cells \<Rightarrow>
               (case leaf_node_find_loop node key 0 num_cells of
                  None \<Rightarrow> None
                | Some (Inl e) \<Rightarrow> Some (Inl e)
                | Some (Inr i) \<Rightarrow>
                    Some (Inr ((malloc_Cursor env)\<lparr>page_num := pnum, cell_num := i\<rparr>,
                               table\<lparr>pager := pgr\<rparr>)))))"

definition table_start :: "Env \<Rightarrow> Table \<Rightarrow> error + (Cursor \<times> Table)" where
  "table_start env table =
     (let cursor = (malloc_Cursor env)\<lparr>page_num := root_page_num table, cell_num := 0\<rparr> in
      case get_page env (pager table) (root_page_num table) of
        Inl e \<Rightarrow> Inl e
      | Inr (root_node, pgr) \<Rightarrow>
          (case load_int root_node leaf_node_num_cells of
             Inl e \<Rightarrow> Inl e
           | Inr num_cells \<Rightarrow>
               Inr (cursor\<lparr>end_of_table := (num_cells = 0)\<rparr>, table\<lparr>pager := pgr\<rparr>)))"

definition table_find ::
  "Env \<Rightarrow> Table \<Rightarrow> int \<Rightarrow> (error + (Cursor \<times> Table)) option" where
  "table_find env table key =
     (case get_page env (pager table) (root_page_num table) of
        Inl e \<Rightarrow> Some (Inl e)
      | Inr (root_node, pgr) \<Rightarrow>
          (case get_node_type root_node of
             Inl e \<Rightarrow> Some (Inl e)
           | Inr t \<Rightarrow>
               if t = NODE_LEAF
               then leaf_node_find env (table\<lparr>pager := pgr\<rparr>) (root_page_num table) key
               else Some (Inl Internal_node_search_unimplemented)))"

definition cursor_advance :: "Env \<Rightarrow> Table \<Rightarrow> Cursor \<Rightarrow> error + (Cursor \<times> Table)" where
  "cursor_advance env table cursor =
     (case get_page env (pager table) (page_num cursor) of
        Inl e \<Rightarrow> Inl e
      | Inr (node, pgr) \<Rightarrow>
          if cell_num cursor = INT_MAX then Inl Signed_overflow
          else
            let cursor' = cursor\<lparr>cell_num := cell_num cursor + 1\<rparr> in
            (case load_int node leaf_node_num_cells of
               Inl e \<Rightarrow> Inl e
             | Inr num_cells \<Rightarrow>
                 Inr (if cell_num cursor' \<ge> num_cells
                      then cursor'\<lparr>end_of_table := True\<rparr> else cursor',
                      table\<lparr>pager := pgr\<rparr>)))"

text \<open>\<open>cursor_value\<close> returns a pointer into a page: the page's bytes and an offset.\<close>

definition cursor_value ::
  "Env \<Rightarrow> Table \<Rightarrow> Cursor \<Rightarrow> error + ((byte list \<times> int) \<times> Table)" where
  "cursor_value env table cursor =
     (case get_page env (pager table) (page_num cursor) of
        Inl e \<Rightarrow> Inl e
      | Inr (page, pgr) \<Rightarrow>
          Inr ((page, leaf_node_value (cell_num cursor)), table\<lparr>pager := pgr\<rparr>))"

section \<open>Statements\<close>

text \<open>
  \<open>execute_insert\<close> as the source has it: the full-leaf test, the search, the
  duplicate test, and the return of \<^verbatim>\<open>EXECUTE_SUCCESS\<close>. Between fetching \<^verbatim>\<open>node\<close>
  and reading the key through it nothing is stored into the page, so the bytes
  read are those fetched. The source has no call of \<^verbatim>\<open>leaf_node_insert\<close> here or
  anywhere else, and none of \<^verbatim>\<open>leaf_node_split_and_insert\<close>.
\<close>

definition execute_insert ::
  "Env \<Rightarrow> Statement \<Rightarrow> Table \<Rightarrow> (error + (ExecuteResult \<times> Table)) option" where
  "execute_insert env statement table =
     (case get_page env (pager table) (root_page_num table) of
        Inl e \<Rightarrow> Some (Inl e)
      | Inr (node, pgr) \<Rightarrow>
          (case load_int node leaf_node_num_cells of
             Inl e \<Rightarrow> Some (Inl e)
           | Inr num_cells \<Rightarrow>
               if num_cells \<ge> LEAF_NODE_MAX_CELLS
               then Some (Inr (EXECUTE_TABLE_FULL, table\<lparr>pager := pgr\<rparr>))
               else
                 let row = row_to_insert statement;
                     key_to_insert = to_int (uint (id_Row row))
                 in
                 (case table_find env (table\<lparr>pager := pgr\<rparr>) key_to_insert of
                    None \<Rightarrow> None
                  | Some (Inl e) \<Rightarrow> Some (Inl e)
                  | Some (Inr (cursor, table')) \<Rightarrow>
                      if cell_num cursor < num_cells then
                        (case load_int node (leaf_node_key (cell_num cursor)) of
                           Inl e \<Rightarrow> Some (Inl e)
                         | Inr key_at_index \<Rightarrow>
                             if key_at_index = key_to_insert
                             then Some (Inr (EXECUTE_DUPLICATE_KEY, table'))
                             else Some (Inr (EXECUTE_SUCCESS, table')))
                      else Some (Inr (EXECUTE_SUCCESS, table')))))"

text \<open>
  The loop of \<open>execute_select\<close>. Its body deserializes the row under the cursor and
  prints it; the rows printed so far are the accumulator. The third statement of
  the body is the expression \<^verbatim>\<open>cursor_advance;\<close>, which names the function and
  calls nothing, so the cursor of the next iteration is the same.
\<close>

partial_function (option) execute_select_loop ::
  "Env \<Rightarrow> Table \<Rightarrow> Cursor \<Rightarrow> Row list \<Rightarrow> (error + (Row list \<times> Table)) option" where
  "execute_select_loop env table cursor out =
     (if \<not> end_of_table cursor then
        (case cursor_value env table cursor of
           Inl e \<Rightarrow> Some (Inl e)
         | Inr ((page, off), table') \<Rightarrow>
             (case deserialize_row page off of
                Inl e \<Rightarrow> Some (Inl e)
              | Inr row \<Rightarrow> execute_select_loop env table' cursor (out @ [row])))
      else Some (Inr (out, table)))"

definition execute_select ::
  "Env \<Rightarrow> Statement \<Rightarrow> Table \<Rightarrow> (error + ((ExecuteResult \<times> Row list) \<times> Table)) option" where
  "execute_select env statement table =
     (case table_start env table of
        Inl e \<Rightarrow> Some (Inl e)
      | Inr (cursor, table') \<Rightarrow>
          (case execute_select_loop env table' cursor [] of
             None \<Rightarrow> None
           | Some (Inl e) \<Rightarrow> Some (Inl e)
           | Some (Inr (out, table'')) \<Rightarrow> Some (Inr ((EXECUTE_SUCCESS, out), table''))))"

text \<open>
  The keys of the first \<open>n\<close> slots of a leaf, as \<open>leaf_node_key\<close> and a read of an
  \<^verbatim>\<open>int\<close> deliver them.
\<close>

definition leaf_keys :: "byte list \<Rightarrow> int \<Rightarrow> (error + int) list" where
  "leaf_keys node n = map (\<lambda>i. load_int node (leaf_node_key (int i))) [0..<nat n]"

text \<open>
  The keys of the first \<open>n\<close> cells of a leaf where the file format of the
  specification places them (a packed array of cells after the leaf header, the
  key first in each cell): cell \<open>i\<close> at byte
  \<open>LEAF_NODE_HEADER_SIZE + i * LEAF_NODE_CELL_SIZE\<close>. This definition follows the
  specification's words, for comparison with \<open>leaf_keys\<close>, which follows the source.
\<close>

definition spec_leaf_keys :: "byte list \<Rightarrow> int \<Rightarrow> (error + int) list" where
  "spec_leaf_keys node n =
     map (\<lambda>i. load_int node (LEAF_NODE_HEADER_SIZE + int i * LEAF_NODE_CELL_SIZE)) [0..<nat n]"

text \<open>
  The invariant behind the page count: every resident page has a number below
  \<open>num_pages\<close>.
\<close>

definition pager_inv :: "Pager \<Rightarrow> bool" where
  "pager_inv pgr \<longleftrightarrow> (\<forall>i. pages pgr i \<noteq> None \<longrightarrow> int i < num_pages pgr)"

section \<open>Example inputs\<close>

text \<open>
  The pager of a new, empty file, and an environment for it: \<^verbatim>\<open>open\<close> returns
  descriptor 3, the file has no bytes, every \<^verbatim>\<open>read\<close> is at end of file, and
  \<^verbatim>\<open>malloc\<close> returns memory in which every byte is \<open>b\<close>. \<open>file_Env\<close> is the
  environment of a file that holds one page, \<open>page0\<close>.
\<close>

definition empty_Pager :: Pager where
  "empty_Pager = \<lparr>file_descriptor = 3, file_length = 0, num_pages = 0, pages = (\<lambda>i. None)\<rparr>"

definition example_Env :: "byte \<Rightarrow> Env" where
  "example_Env b =
     \<lparr>open_result = 3,
      lseek_end_result = 0,
      malloc_page = (\<lambda>p. replicate 4096 b),
      read_page = (\<lambda>p. Some []),
      lseek_set_result = (\<lambda>p. p * 4096),
      write_result = (\<lambda>p. 4096),
      malloc_Table = \<lparr>num_rows = 0, pager = empty_Pager, root_page_num = 0\<rparr>,
      malloc_Cursor = \<lparr>row_num = 0, page_num = 0, cell_num = 0, end_of_table = False\<rparr>\<rparr>"

definition file_Env :: "byte list \<Rightarrow> Env" where
  "file_Env page0 =
     (example_Env 0)\<lparr>lseek_end_result := 4096,
                     read_page := (\<lambda>p. if p = 0 then Some page0 else Some [])\<rparr>"

text \<open>
  \<open>example_leaf n\<close> is a page with node type leaf and cell count \<open>n\<close> whose bytes from
  offset 317 on are 1, 2, ..., 16. \<open>file_Table\<close> is the table \<open>db_open\<close> returns for a
  file of one page, \<open>new_Table\<close> the one it returns for a new file (when \<^verbatim>\<open>malloc\<close>
  returns zeros), with the root page \<open>new_leaf\<close>.
\<close>

definition example_leaf :: "byte \<Rightarrow> byte list" where
  "example_leaf n =
     [1, 0, 0, 0, 0, 0, 0, 0, 0, 0, 0, 0, n, 0, 0, 0] @ replicate 301 0
     @ [1, 2, 3, 4, 5, 6, 7, 8, 9, 10, 11, 12, 13, 14, 15, 16] @ replicate 3763 0"

definition file_Table :: Table where
  "file_Table =
     \<lparr>num_rows = 0,
      pager = \<lparr>file_descriptor = 3, file_length = 4096, num_pages = 1, pages = (\<lambda>i. None)\<rparr>,
      root_page_num = 0\<rparr>"

definition new_leaf :: "byte list" where
  "new_leaf = [1, 0, 0, 0] @ replicate 8 0 @ [0, 0, 0, 0] @ replicate 4080 0"

definition new_Table :: Table where
  "new_Table =
     \<lparr>num_rows = 0,
      pager = \<lparr>file_descriptor = 3, file_length = 0, num_pages = 1,
               pages = (\<lambda>i. None)(0 := Some new_leaf)\<rparr>,
      root_page_num = 0\<rparr>"

definition insert_Statement :: "64 word \<Rightarrow> Statement" where
  "insert_Statement k =
     \<lparr>type_Statement = STATEMENT_INSERT,
      row_to_insert = \<lparr>id_Row = k, username = [97] @ replicate 32 0,
                        email = [97, 64, 120] @ replicate 253 0\<rparr>\<rparr>"

definition select_Statement :: Statement where
  "select_Statement = (insert_Statement 0)\<lparr>type_Statement := STATEMENT_SELECT\<rparr>"

text \<open>
  \<open>packed_leaf n ks\<close> is a leaf page in the file format of the specification: cell
  count \<open>n\<close>, and for each key of \<open>ks\<close> a cell of 301 bytes, the key and then the
  image of the row with that id and empty strings.
\<close>

definition packed_cell :: "byte \<Rightarrow> byte list" where
  "packed_cell k = [k, 0, 0, 0] @ [k, 0, 0, 0, 0, 0, 0, 0] @ replicate 289 0"

definition packed_leaf :: "byte \<Rightarrow> byte list \<Rightarrow> byte list" where
  "packed_leaf n ks =
     [1, 0, 0, 0, 0, 0, 0, 0, 0, 0, 0, 0, n, 0, 0, 0] @ concat (map packed_cell ks)
     @ replicate (4080 - 301 * length ks) 0"

section \<open>Memory lemmas\<close>

lemma length_encode_le: "length (encode_le n x) = n"
  by (induction n arbitrary: x) auto

lemma decode_encode_le: "decode_le (encode_le n x) = x mod 256 ^ n"
proof (induction n arbitrary: x)
  case 0
  show ?case by simp
next
  case (Suc n)
  have "uint (word_of_int (x mod 256) :: byte) = x mod 256"
    by (simp add: uint_word_of_int)
  moreover have "x mod (256 * 256 ^ n) = 256 * (x div 256 mod 256 ^ n) + x mod 256"
    by (rule zmod_zmult2_eq) simp
  ultimately show ?case using Suc by simp
qed

lemma store_length: "store m off bs = Inr m' \<Longrightarrow> length m' = length m"
  by (auto simp: store_def in_bounds_def split: if_splits)

lemma store_Inr_iff:
  "(\<exists>m'. store m off bs = Inr m') \<longleftrightarrow> in_bounds m off (int (length bs))"
  by (simp add: store_def)

lemma load_store_same:
  assumes "store m off bs = Inr m'" and "n = int (length bs)"
  shows "load m' off n = Inr bs"
proof -
  from assms(1) have b: "in_bounds m off (int (length bs))"
    and m': "m' = take (nat off) m @ bs @ drop (nat off + length bs) m"
    by (auto simp: store_def split: if_splits)
  from b have l: "length (take (nat off) m) = nat off"
    by (auto simp: in_bounds_def)
  from assms(1) have "length m' = length m" by (rule store_length)
  with b assms(2) have "in_bounds m' off n" by (simp add: in_bounds_def)
  moreover have "take (nat n) (drop (nat off) m') = bs"
    using l assms(2) by (simp add: m')
  ultimately show ?thesis by (simp add: load_def)
qed

lemma store_nth_outside:
  assumes "store m off bs = Inr m'"
    and "j < nat off \<or> nat off + length bs \<le> j"
  shows "m' ! j = m ! j"
proof -
  from assms(1) have b: "in_bounds m off (int (length bs))"
    and m': "m' = take (nat off) m @ bs @ drop (nat off + length bs) m"
    by (auto simp: store_def split: if_splits)
  from b have l: "length (take (nat off) m) = nat off" and le: "nat off + length bs \<le> length m"
    by (auto simp: in_bounds_def)
  from assms(2) show ?thesis
  proof
    assume "j < nat off"
    then show ?thesis using l by (simp add: m' nth_append)
  next
    assume j: "nat off + length bs \<le> j"
    then have "\<not> j < nat off" and "\<not> j - nat off < length bs"
      and "nat off + length bs + (j - nat off - length bs) = j"
      by arith+
    then show ?thesis using l le by (simp add: m' nth_append)
  qed
qed

lemma load_store_disjoint:
  assumes "store m off bs = Inr m'"
    and "off2 + n \<le> off \<or> off + int (length bs) \<le> off2"
  shows "load m' off2 n = load m off2 n"
proof (cases "in_bounds m off2 n")
  case False
  moreover from assms(1) have "length m' = length m" by (rule store_length)
  ultimately show ?thesis by (auto simp: load_def in_bounds_def)
next
  case True
  from assms(1) have len: "length m' = length m" by (rule store_length)
  from assms(1) have b: "in_bounds m off (int (length bs))"
    by (auto simp: store_def split: if_splits)
  have "take (nat n) (drop (nat off2) m') = take (nat n) (drop (nat off2) m)"
  proof (rule nth_equalityI)
    show "length (take (nat n) (drop (nat off2) m')) = length (take (nat n) (drop (nat off2) m))"
      by (simp add: len)
  next
    fix i assume "i < length (take (nat n) (drop (nat off2) m'))"
    then have i: "i < nat n" "nat off2 + i < length m" by (auto simp: len)
    have "nat off2 + i < nat off \<or> nat off + length bs \<le> nat off2 + i"
      using assms(2) True b i by (auto simp: in_bounds_def)
    then have "m' ! (nat off2 + i) = m ! (nat off2 + i)"
      by (rule store_nth_outside [OF assms(1)])
    then show "take (nat n) (drop (nat off2) m') ! i = take (nat n) (drop (nat off2) m) ! i"
      using i by (simp add: len)
  qed
  with True len show ?thesis by (simp add: load_def in_bounds_def)
qed

section \<open>Layout constants\<close>

lemmas row_layout_defs = COLUMN_USERNAME_SIZE_def COLUMN_EMAIL_SIZE_def ID_OFFSET_def ID_SIZE_def
  USERNAME_SIZE_def USERNAME_OFFSET_def EMAIL_SIZE_def EMAIL_OFFSET_def ROW_SIZE_def PAGE_SIZE_def

lemmas node_layout_defs = NODE_TYPE_SIZE_def NODE_TYPE_OFFSET_def IS_ROOT_SIZE_def
  IS_ROOT_OFFSET_def PARENT_POINTER_SIZE_def PARENT_POINTER_OFFSET_def
  COMMON_NODE_HEADER_SIZE_def LEAF_NODE_NUM_CELLS_SIZE_def LEAF_NODE_NUM_CELLS_OFFSET_def
  LEAF_NODE_HEADER_SIZE_def LEAF_NODE_KEY_SIZE_def LEAF_NODE_KEY_OFFSET_def
  LEAF_NODE_VALUE_SIZE_def LEAF_NODE_VALUE_OFFSET_def LEAF_NODE_CELL_SIZE_def
  LEAF_NODE_SPACE_FOR_CELLS_def

lemma ROW_SIZE_value: "ROW_SIZE = 297"
  by (simp add: row_layout_defs)

lemma LEAF_NODE_HEADER_SIZE_value: "LEAF_NODE_HEADER_SIZE = 16"
  by (simp add: node_layout_defs)

lemma LEAF_NODE_CELL_SIZE_value: "LEAF_NODE_CELL_SIZE = 301"
  by (simp add: node_layout_defs row_layout_defs)

lemma LEAF_NODE_MAX_CELLS_value: "LEAF_NODE_MAX_CELLS = 13"
  by (simp add: LEAF_NODE_MAX_CELLS_def node_layout_defs row_layout_defs signed_divide_int_def)

lemma leaf_node_cell_value: "leaf_node_cell i = 317 + i"
  by (simp add: leaf_node_cell_def LEAF_NODE_HEADER_SIZE_value LEAF_NODE_CELL_SIZE_value)

lemma leaf_node_key_value: "leaf_node_key i = 317 + i"
  by (simp add: leaf_node_key_def leaf_node_cell_value)

lemma leaf_node_value_value: "leaf_node_value i = 321 + i"
  by (simp add: leaf_node_value_def leaf_node_cell_value LEAF_NODE_KEY_SIZE_def)

lemma leaf_node_num_cells_value: "leaf_node_num_cells = 12"
  by (simp add: leaf_node_num_cells_def node_layout_defs)

section \<open>The cell accessor\<close>

text \<open>
  Claim C6 says that cell \<open>i\<close> of a leaf begins at byte offset
  \<open>LEAF_NODE_HEADER_SIZE + i * LEAF_NODE_CELL_SIZE\<close> of the page, so that distinct
  slots occupy disjoint byte ranges. The accessor of the source adds the slot
  index and the cell size instead of multiplying them: for no slot \<open>i\<close> is its
  result the packed offset, slot 0 begins at byte 317 and not at byte 16, and
  slot 1 begins one byte after slot 0, inside the 301 bytes of slot 0.
\<close>

theorem leaf_node_cell_not_packed:
  "leaf_node_cell i \<noteq> LEAF_NODE_HEADER_SIZE + i * LEAF_NODE_CELL_SIZE
   \<and> leaf_node_cell 0 = 317
   \<and> LEAF_NODE_HEADER_SIZE + 0 * LEAF_NODE_CELL_SIZE = 16
   \<and> leaf_node_cell 1 = leaf_node_cell 0 + 1
   \<and> leaf_node_cell 1 < leaf_node_cell 0 + LEAF_NODE_CELL_SIZE"
proof -
  have "317 + i \<noteq> 16 + i * 301" by presburger
  then show ?thesis
    by (simp add: leaf_node_cell_value LEAF_NODE_HEADER_SIZE_value LEAF_NODE_CELL_SIZE_value)
qed

section \<open>The page number guard of \<open>get_page\<close>\<close>

lemma get_page_guard:
  "pnum > TABLE_MAX_PAGES \<Longrightarrow> get_page env pgr pnum = Inl Page_number_out_of_bounds"
  by (simp add: get_page_def)

lemma get_page_Inr_index:
  "get_page env pgr pnum = Inr r \<Longrightarrow> 0 \<le> pnum \<and> pnum < TABLE_MAX_PAGES"
  by (auto simp: get_page_def split: if_splits)

text \<open>
  Claim C7 says that \<open>get_page\<close> fails fatally for every page number beyond the
  capacity and that every page number it accepts indexes the page array within
  bounds, below \<open>TABLE_MAX_PAGES = 100\<close>. The guard of the source is
  \<^verbatim>\<open>page_num > TABLE_MAX_PAGES\<close>: page number 100 passes it, whatever the pager
  and the environment, and the next line indexes \<^verbatim>\<open>pages[100]\<close>, one entry past the
  end of the array.
\<close>

theorem get_page_accepts_TABLE_MAX_PAGES:
  "get_page env pgr 100 = Inl Out_of_bounds_access
   \<and> get_page env pgr 100 \<noteq> Inl Page_number_out_of_bounds
   \<and> \<not> (100 < TABLE_MAX_PAGES)"
  by (simp add: get_page_def TABLE_MAX_PAGES_def)

section \<open>Row codec: round trip and frame\<close>

lemma c_str_no_NUL: "0 \<notin> set (c_str bs)"
  unfolding c_str_def by (induction bs) auto

lemma length_c_str_le: "length (c_str bs) \<le> length bs"
  unfolding c_str_def by (rule length_takeWhile_le)

lemma c_str_pad: "c_str (c_str bs @ replicate k 0) = c_str bs"
proof -
  have "\<And>x. x \<in> set (c_str bs) \<Longrightarrow> x \<noteq> 0"
    using c_str_no_NUL [of bs] by metis
  then have "takeWhile (\<lambda>c. c \<noteq> 0) (c_str bs @ replicate k 0)
      = c_str bs @ takeWhile (\<lambda>c. c \<noteq> 0) (replicate k 0)"
    by (simp add: takeWhile_append2)
  then show ?thesis by (cases k) (simp_all add: c_str_def)
qed

lemma strncpy_length: "strncpy src n = Inr bs \<Longrightarrow> length bs = n"
proof -
  assume a: "strncpy src n = Inr bs"
  have "length (c_str (take n src)) \<le> n"
    using length_c_str_le [of "take n src"] by simp
  with a show ?thesis
    by (auto simp: strncpy_def Let_def split: if_splits)
qed

lemma strncpy_sized:
  "length src = n \<Longrightarrow>
     strncpy src n = Inr (c_str src @ replicate (n - length (c_str src)) 0)"
  by (simp add: strncpy_def Let_def)

lemma word64_decode_encode: "word_of_int (decode_le (encode_le 8 (uint w))) = (w :: 64 word)"
proof -
  have "uint w < 2 ^ 64" using uint_bounded [of w] by simp
  then have "uint w mod 256 ^ 8 = uint w" by simp
  then show ?thesis by (simp add: decode_encode_le)
qed

lemma serialize_row_stores:
  assumes "serialize_row r m dst = Inr m'"
  obtains m1 u m2 em where
    "store m dst (encode_le 8 (uint (id_Row r))) = Inr m1"
    "strncpy (username r) 33 = Inr u"
    "store m1 (dst + 8) u = Inr m2"
    "strncpy (email r) 256 = Inr em"
    "store m2 (dst + 41) em = Inr m'"
  using assms
  by (auto simp: serialize_row_def row_layout_defs split: sum.splits)

text \<open>
  The frame of \<open>serialize_row\<close>: it returns normally only when the 297 bytes from the
  destination on lie inside the buffer, and then no byte before the destination
  and no byte from offset \<open>ROW_SIZE\<close> of the destination on is changed.
\<close>

lemma serialize_row_frame:
  assumes "serialize_row r m dst = Inr m'"
  shows "length m' = length m"
    and "j < nat dst \<or> nat dst + nat ROW_SIZE \<le> j \<Longrightarrow> m' ! j = m ! j"
    and "in_bounds m dst ROW_SIZE"
proof -
  from assms obtain m1 u m2 em where
    s1: "store m dst (encode_le 8 (uint (id_Row r))) = Inr m1" and
    u: "strncpy (username r) 33 = Inr u" and
    s2: "store m1 (dst + 8) u = Inr m2" and
    em: "strncpy (email r) 256 = Inr em" and
    s3: "store m2 (dst + 41) em = Inr m'"
    by (rule serialize_row_stores)
  have lu: "length u = 33" using u by (rule strncpy_length)
  have lem: "length em = 256" using em by (rule strncpy_length)
  have l1: "length m1 = length m" using s1 by (rule store_length)
  have l2: "length m2 = length m1" using s2 by (rule store_length)
  have l3: "length m' = length m2" using s3 by (rule store_length)
  show "length m' = length m" using l1 l2 l3 by simp
  from s1 have d: "0 \<le> dst" by (auto simp: store_def in_bounds_def split: if_splits)
  from s3 have "dst + 41 + 256 \<le> int (length m2)"
    by (auto simp: store_def in_bounds_def lem split: if_splits)
  with d l1 l2 show "in_bounds m dst ROW_SIZE" by (simp add: in_bounds_def ROW_SIZE_value)
  assume j: "j < nat dst \<or> nat dst + nat ROW_SIZE \<le> j"
  have "m' ! j = m2 ! j"
    using j d by (intro store_nth_outside [OF s3]) (auto simp: lem ROW_SIZE_value)
  also have "m2 ! j = m1 ! j"
    using j d by (intro store_nth_outside [OF s2]) (auto simp: lu ROW_SIZE_value)
  also have "m1 ! j = m ! j"
    using j d by (intro store_nth_outside [OF s1]) (auto simp: length_encode_le ROW_SIZE_value)
  finally show "m' ! j = m ! j" .
qed

lemma serialize_row_Inr:
  assumes "Row_sized r" and "in_bounds m dst ROW_SIZE"
  shows "\<exists>m'. serialize_row r m dst = Inr m'"
proof -
  from assms(2) have b: "0 \<le> dst" "dst + 297 \<le> int (length m)"
    by (auto simp: in_bounds_def ROW_SIZE_value)
  from b obtain m1 where s1: "store m dst (encode_le 8 (uint (id_Row r))) = Inr m1"
    by (auto simp: store_def in_bounds_def length_encode_le)
  from assms(1) obtain u where u: "strncpy (username r) 33 = Inr u"
    using strncpy_sized [of "username r" 33] by (auto simp: Row_sized_def row_layout_defs)
  from assms(1) obtain em where em: "strncpy (email r) 256 = Inr em"
    using strncpy_sized [of "email r" 256] by (auto simp: Row_sized_def row_layout_defs)
  have lu: "length u = 33" using u by (rule strncpy_length)
  have lem: "length em = 256" using em by (rule strncpy_length)
  have l1: "length m1 = length m" using s1 by (rule store_length)
  from b l1 lu obtain m2 where s2: "store m1 (dst + 8) u = Inr m2"
    by (auto simp: store_def in_bounds_def)
  have l2: "length m2 = length m1" using s2 by (rule store_length)
  from b l1 l2 lem obtain m' where s3: "store m2 (dst + 41) em = Inr m'"
    by (auto simp: store_def in_bounds_def)
  show ?thesis
    using s1 u s2 em s3 by (simp add: serialize_row_def row_layout_defs)
qed

lemma deserialize_serialize_row:
  assumes "serialize_row r m dst = Inr m'"
  shows "\<exists>u em. strncpy (username r) (nat USERNAME_SIZE) = Inr u
           \<and> strncpy (email r) (nat EMAIL_SIZE) = Inr em
           \<and> deserialize_row m' dst = Inr \<lparr>id_Row = id_Row r, username = u, email = em\<rparr>"
proof -
  from assms obtain m1 u m2 em where
    s1: "store m dst (encode_le 8 (uint (id_Row r))) = Inr m1" and
    u: "strncpy (username r) 33 = Inr u" and
    s2: "store m1 (dst + 8) u = Inr m2" and
    em: "strncpy (email r) 256 = Inr em" and
    s3: "store m2 (dst + 41) em = Inr m'"
    by (rule serialize_row_stores)
  have lu: "length u = 33" using u by (rule strncpy_length)
  have lem: "length em = 256" using em by (rule strncpy_length)
  have "load m' dst 8 = load m2 dst 8"
    by (rule load_store_disjoint [OF s3]) simp
  also have "\<dots> = load m1 dst 8"
    by (rule load_store_disjoint [OF s2]) simp
  also have "\<dots> = Inr (encode_le 8 (uint (id_Row r)))"
    by (rule load_store_same [OF s1]) (simp add: length_encode_le)
  finally have i: "load m' dst 8 = Inr (encode_le 8 (uint (id_Row r)))" .
  have "load m' (dst + 8) 33 = load m2 (dst + 8) 33"
    by (rule load_store_disjoint [OF s3]) simp
  also have "\<dots> = Inr u"
    by (rule load_store_same [OF s2]) (simp add: lu)
  finally have un: "load m' (dst + 8) 33 = Inr u" .
  have e: "load m' (dst + 41) 256 = Inr em"
    by (rule load_store_same [OF s3]) (simp add: lem)
  show ?thesis
    using i un e u em
    by (simp add: deserialize_row_def row_layout_defs word64_decode_encode)
qed

text \<open>
  Claim C4: for every Row whose fields satisfy the length invariants, deserializing
  the bytes produced by serializing it yields a Row whose id, username and email
  equal the original field values exactly.

  The Row is any value of the C type (its arrays have 33 and 256 bytes) and the
  destination any place with \<open>ROW_SIZE\<close> bytes of room. Serializing returns, and
  deserializing the result returns a Row with the same id and with arrays that hold
  the same strings as the original's: each is the original string, NUL padded to
  the width of its field. Nothing is asked of the sign of the id or of the length
  of the strings, so the rows of the claim are covered.
\<close>

theorem deserialize_row_serialize_row:
  assumes "Row_sized r" and "in_bounds m dst ROW_SIZE"
  shows "\<exists>m' r'. serialize_row r m dst = Inr m' \<and> deserialize_row m' dst = Inr r'
           \<and> id_Row r' = id_Row r
           \<and> c_str (username r') = c_str (username r)
           \<and> c_str (email r') = c_str (email r)
           \<and> username r' = c_str (username r)
                 @ replicate (nat USERNAME_SIZE - length (c_str (username r))) 0
           \<and> email r' = c_str (email r)
                 @ replicate (nat EMAIL_SIZE - length (c_str (email r))) 0"
proof -
  from assms obtain m' where s: "serialize_row r m dst = Inr m'"
    using serialize_row_Inr by blast
  then obtain u em where u: "strncpy (username r) (nat USERNAME_SIZE) = Inr u"
    and em: "strncpy (email r) (nat EMAIL_SIZE) = Inr em"
    and d: "deserialize_row m' dst = Inr \<lparr>id_Row = id_Row r, username = u, email = em\<rparr>"
    using deserialize_serialize_row by blast
  from assms(1) u
  have u': "u = c_str (username r) @ replicate (nat USERNAME_SIZE - length (c_str (username r))) 0"
    by (simp add: Row_sized_def strncpy_sized)
  from assms(1) em
  have em': "em = c_str (email r) @ replicate (nat EMAIL_SIZE - length (c_str (email r))) 0"
    by (simp add: Row_sized_def strncpy_sized)
  have "c_str u = c_str (username r)" by (subst u') (rule c_str_pad)
  moreover have "c_str em = c_str (email r)" by (subst em') (rule c_str_pad)
  ultimately show ?thesis using s d u' em' by simp
qed

theorem deserialize_row_serialize_row_witness:
  "Row_sized \<lparr>id_Row = 7, username = [97, 0] @ replicate 31 120,
              email = [97, 64, 120, 0] @ replicate 252 0\<rparr>
   \<and> in_bounds (replicate 300 255) 2 ROW_SIZE
   \<and> (\<exists>m' r'.
        serialize_row \<lparr>id_Row = 7, username = [97, 0] @ replicate 31 120,
                       email = [97, 64, 120, 0] @ replicate 252 0\<rparr>
                      (replicate 300 255) 2 = Inr m'
        \<and> deserialize_row m' 2 = Inr r'
        \<and> id_Row r' = 7
        \<and> c_str (username r') = [97]
        \<and> c_str (email r') = [97, 64, 120]
        \<and> username r' = [97] @ replicate 32 0)"
proof -
  let ?r = "\<lparr>id_Row = 7, username = [97, 0] @ replicate 31 120,
             email = [97, 64, 120, 0] @ replicate 252 0\<rparr>"
  have h1: "Row_sized ?r" by (simp add: Row_sized_def row_layout_defs)
  have h2: "in_bounds (replicate 300 255) 2 ROW_SIZE"
    by (simp add: in_bounds_def ROW_SIZE_value)
  have c: "c_str (username ?r) = [97]" "c_str (email ?r) = [97, 64, 120]"
    by (simp_all add: c_str_def)
  from deserialize_row_serialize_row [OF h1 h2] c h1 h2 show ?thesis
    by (simp add: row_layout_defs) blast
qed

lemma decode_le_replicate_0: "decode_le (replicate n 0) = 0"
  by (induction n) auto

lemma decode_le_append: "decode_le (xs @ ys) = decode_le xs + 256 ^ length xs * decode_le ys"
  by (induction xs) (auto simp: algebra_simps)

lemma encode_le_4:
  "encode_le 4 x = [word_of_int (x mod 256), word_of_int (x div 256 mod 256),
     word_of_int (x div 256 div 256 mod 256), word_of_int (x div 256 div 256 div 256 mod 256)]"
  by (simp add: eval_nat_numeral)

lemma encode_le_8_small:
  "0 \<le> x \<Longrightarrow> x < 256 \<Longrightarrow> encode_le 8 x = [word_of_int x, 0, 0, 0, 0, 0, 0, 0]"
  by (simp add: eval_nat_numeral)

text \<open>
  Claim C10 says that \<open>serialize_row\<close> writes only the \<open>ROW_SIZE\<close> bytes from the
  destination on, so that serializing into one cell's value region never alters a
  neighbouring cell. The first half is \<open>serialize_row_frame\<close> above. The second half
  fails on the cells the source lays out: the value region of slot 0 starts at
  byte 321 of the page, and the key of slot 1 is the four bytes from byte 318 on,
  so the first byte of a row serialized into slot 0 is the top byte of the key of
  slot 1. On a page of zeros, serializing the row with id 1 into slot 0 turns the
  key of slot 1 from 0 into 16777216.
\<close>

theorem serialize_row_alters_next_cell:
  "load_int (replicate 4096 0) (leaf_node_key 1) = Inr 0
   \<and> (\<exists>m'. serialize_row \<lparr>id_Row = 1, username = replicate 33 0, email = replicate 256 0\<rparr>
                (replicate 4096 0) (leaf_node_value 0) = Inr m'
           \<and> load_int m' (leaf_node_key 1) = Inr 16777216)"
proof -
  have a: "load_int (replicate 4096 0) (leaf_node_key 1) = Inr 0"
    by (simp add: load_int_def load_def in_bounds_def leaf_node_key_value decode_le_replicate_0)
  let ?m' = "replicate 321 0 @ [1, 0, 0, 0, 0, 0, 0, 0] @ replicate 33 0 @ replicate 256 0
               @ replicate 3478 (0::byte)"
  have s: "serialize_row \<lparr>id_Row = 1, username = replicate 33 0, email = replicate 256 0\<rparr>
                (replicate 4096 0) (leaf_node_value 0) = Inr ?m'"
    by (simp add: serialize_row_def store_def in_bounds_def strncpy_def c_str_def
        row_layout_defs leaf_node_value_value encode_le_8_small replicate_add [symmetric])
  have l: "load_int ?m' (leaf_node_key 1) = Inr 16777216"
    by (simp add: load_int_def load_def in_bounds_def leaf_node_key_value
        decode_le_append decode_le_replicate_0)
  from a s l show ?thesis by blast
qed

section \<open>Loading a page\<close>

lemma read_into_take:
  "take (min (length bs) (nat PAGE_SIZE)) (read_into buf bs) = take (nat PAGE_SIZE) bs"
  by (simp add: read_into_def Let_def min_def)

lemma read_into_drop:
  "drop (min (length bs) (nat PAGE_SIZE)) (read_into buf bs)
     = drop (min (length bs) (nat PAGE_SIZE)) buf"
  by (simp add: read_into_def Let_def min_def)

lemma read_into_length:
  "length buf = nat PAGE_SIZE \<Longrightarrow> length (read_into buf bs) = nat PAGE_SIZE"
  by (simp add: read_into_def Let_def min_def)

text \<open>
  Claim C8, as the code has it: for every accepted page number whose page is not
  yet resident, \<open>get_page\<close> returns a buffer in which every byte not filled by the
  read from the file has the value it had in the buffer \<^verbatim>\<open>malloc\<close> returned, which
  the code does not initialise; in particular, when the read delivers nothing (at
  or beyond the end of the file) or is not attempted, the buffer returned is the
  buffer \<^verbatim>\<open>malloc\<close> returned, as it is.

  Here \<open>bs\<close> are the bytes the read delivered, none when the page number is beyond
  the \<open>file_num_pages\<close> of the pager and no read is made.
\<close>

theorem get_page_miss_buffer:
  assumes "pages pgr (nat pnum) = None" and "get_page env pgr pnum = Inr (page, pgr')"
  shows "\<exists>bs. (pnum \<le> file_num_pages pgr \<and> read_page env pnum = Some bs
              \<or> file_num_pages pgr < pnum \<and> bs = [])
           \<and> take (min (length bs) (nat PAGE_SIZE)) page = take (nat PAGE_SIZE) bs
           \<and> drop (min (length bs) (nat PAGE_SIZE)) page
               = drop (min (length bs) (nat PAGE_SIZE)) (malloc_page env pnum)
           \<and> (bs = [] \<longrightarrow> page = malloc_page env pnum)"
proof (cases "pnum \<le> file_num_pages pgr")
  case True
  with assms obtain bs where bs: "read_page env pnum = Some bs"
    and page: "page = read_into (malloc_page env pnum) bs"
    by (auto simp: get_page_def Let_def split: if_splits option.splits)
  have "bs = [] \<Longrightarrow> page = malloc_page env pnum"
    by (simp add: page read_into_def)
  with True bs show ?thesis
    by (intro exI [of _ bs]) (simp add: page read_into_take read_into_drop)
next
  case False
  with assms have "page = malloc_page env pnum"
    by (auto simp: get_page_def Let_def split: if_splits)
  with False show ?thesis by (intro exI [of _ "[]"]) simp
qed

theorem get_page_miss_buffer_witness:
  "pages empty_Pager (nat 0) = None
   \<and> get_page (example_Env 255) empty_Pager 0
       = Inr (replicate 4096 255,
              empty_Pager\<lparr>pages := (pages empty_Pager)(nat 0 := Some (replicate 4096 255)),
                           num_pages := 1\<rparr>)
   \<and> read_page (example_Env 255) 0 = Some []
   \<and> replicate 4096 255 = malloc_page (example_Env 255) 0"
proof -
  have h1: "pages empty_Pager (nat 0) = None" by (simp add: empty_Pager_def)
  have h2: "get_page (example_Env 255) empty_Pager 0
       = Inr (replicate 4096 255,
              empty_Pager\<lparr>pages := (pages empty_Pager)(nat 0 := Some (replicate 4096 255)),
                           num_pages := 1\<rparr>)"
    by (simp add: get_page_def example_Env_def empty_Pager_def file_num_pages_def
      TABLE_MAX_PAGES_def PAGE_SIZE_def read_into_def Let_def)
  have r: "read_page (example_Env 255) 0 = Some []" by (simp add: example_Env_def)
  from get_page_miss_buffer [OF h1 h2] r h1 h2 show ?thesis
    by (auto simp: file_num_pages_def empty_Pager_def)
qed

text \<open>
  Claim C8 as stated fails: on the pager of a new, empty file, with a \<^verbatim>\<open>malloc\<close> that
  returns memory whose bytes are all 255, page 0 is not resident, it is at the end
  of the file, and the buffer \<open>get_page\<close> returns for it holds 255 in every byte.
\<close>

theorem get_page_not_zero_filled:
  "pages empty_Pager (nat 0) = None
   \<and> get_page (example_Env 255) empty_Pager 0
       = Inr (replicate 4096 255,
              empty_Pager\<lparr>pages := (pages empty_Pager)(nat 0 := Some (replicate 4096 255)),
                           num_pages := 1\<rparr>)
   \<and> file_num_pages empty_Pager = 0
   \<and> replicate 4096 (255 :: byte) \<noteq> replicate 4096 0"
  by (simp add: get_page_def example_Env_def empty_Pager_def file_num_pages_def
      TABLE_MAX_PAGES_def PAGE_SIZE_def read_into_def Let_def)

section \<open>The page count\<close>

lemma pager_open_inv: "pager_open env = Inr pgr \<Longrightarrow> pager_inv pgr"
  by (auto simp: pager_open_def Let_def pager_inv_def split: if_splits)

lemma get_page_step:
  assumes inv: "pager_inv pgr" and g: "get_page env pgr pnum = Inr (page, pgr')"
  shows "pager_inv pgr'" and "num_pages pgr \<le> num_pages pgr'" and "pnum + 1 \<le> num_pages pgr'"
proof -
  from g have r: "0 \<le> pnum" by (auto simp: get_page_def split: if_splits)
  have "pager_inv pgr' \<and> num_pages pgr \<le> num_pages pgr' \<and> pnum + 1 \<le> num_pages pgr'"
  proof (cases "pages pgr (nat pnum)")
    case (Some b)
    with g have "pgr' = pgr" by (auto simp: get_page_def split: if_splits)
    moreover from inv Some r have "pnum + 1 \<le> num_pages pgr"
      unfolding pager_inv_def by (metis int_nat_eq option.distinct(1) zless_imp_add1_zle)
    ultimately show ?thesis using inv by simp
  next
    case None
    with g obtain page' where pgr': "pgr' = pgr\<lparr>pages := (pages pgr)(nat pnum := Some page'),
        num_pages := (if pnum \<ge> num_pages pgr then pnum + 1 else num_pages pgr)\<rparr>"
      by (auto simp: get_page_def Let_def split: if_splits sum.splits)
    have "int i < num_pages pgr'" if "pages pgr' i \<noteq> None" for i
    proof (cases "i = nat pnum")
      case True
      with r show ?thesis by (simp add: pgr')
    next
      case False
      with that have "pages pgr i \<noteq> None" by (simp add: pgr')
      with inv have "int i < num_pages pgr" unfolding pager_inv_def by blast
      then show ?thesis by (simp add: pgr')
    qed
    then have "pager_inv pgr'" unfolding pager_inv_def by blast
    then show ?thesis by (simp add: pgr')
  qed
  then show "pager_inv pgr'" and "num_pages pgr \<le> num_pages pgr'"
    and "pnum + 1 \<le> num_pages pgr'" by simp_all
qed

lemma sorted_le_last: "sorted (x # xs) \<Longrightarrow> (x :: int) \<le> last (x # xs)"
  by (cases "xs = []") auto

lemma pager_step_inv:
  assumes "pager_inv pgr" and "pager_step env pgr x = Inr pgr'"
  shows "pager_inv pgr'" and "num_pages pgr \<le> num_pages pgr'"
    and "\<forall>p \<in> set (fetched [x]). p + 1 \<le> num_pages pgr'"
proof -
  show "pager_inv pgr'" using assms
    by (cases x) (auto simp: pager_flush_def split: sum.splits if_splits dest: get_page_step(1))
  show "num_pages pgr \<le> num_pages pgr'" using assms
    by (cases x) (auto simp: pager_flush_def split: sum.splits if_splits dest: get_page_step(2))
  show "\<forall>p \<in> set (fetched [x]). p + 1 \<le> num_pages pgr'" using assms
    by (cases x) (auto simp: pager_flush_def split: sum.splits if_splits dest: get_page_step(3))
qed

lemma pager_run_inv:
  assumes "pager_inv pgr" and "pager_run env pgr xs = Inr trace"
  shows "length trace = length xs \<and> sorted (map num_pages (pgr # trace))
         \<and> (\<forall>p \<in> set (fetched xs). p + 1 \<le> num_pages (last (pgr # trace)))"
  using assms
proof (induction xs arbitrary: pgr trace)
  case Nil
  then show ?case by simp
next
  case (Cons x xs)
  from Cons.prems(2) obtain pgr' tr where st: "pager_step env pgr x = Inr pgr'"
    and run: "pager_run env pgr' xs = Inr tr" and tr: "trace = pgr' # tr"
    by (auto split: sum.splits)
  note s = pager_step_inv [OF Cons.prems(1) st]
  from Cons.IH [OF s(1) run]
  have len: "length tr = length xs" and srt: "sorted (map num_pages (pgr' # tr))"
    and ft: "\<forall>p \<in> set (fetched xs). p + 1 \<le> num_pages (last (pgr' # tr))"
    by simp_all
  have "last (map num_pages (pgr' # tr)) = num_pages (last (pgr' # tr))"
    by (rule last_map) simp
  with sorted_le_last [of "num_pages pgr'" "map num_pages tr"] srt
  have mono: "num_pages pgr' \<le> num_pages (last (pgr' # tr))" by simp
  have "sorted (map num_pages (pgr # trace))"
    using srt s(2) by (auto simp: tr)
  moreover have "\<forall>p \<in> set (fetched (x # xs)). p + 1 \<le> num_pages (last (pgr # trace))"
    using ft s(3) mono by (cases x) (auto simp: tr)
  ultimately show ?case using len by (simp add: tr)
qed

lemma pager_run_take:
  "pager_run env pgr xs = Inr trace \<Longrightarrow> pager_run env pgr (take n xs) = Inr (take n trace)"
proof (induction xs arbitrary: pgr trace n)
  case Nil
  then show ?case by simp
next
  case (Cons x xs)
  from Cons.prems obtain pgr' tr where st: "pager_step env pgr x = Inr pgr'"
    and run: "pager_run env pgr' xs = Inr tr" and tr: "trace = pgr' # tr"
    by (auto split: sum.splits)
  show ?case
  proof (cases n)
    case 0
    then show ?thesis by simp
  next
    case (Suc k)
    with Cons.IH [OF run, of k] st show ?thesis by (simp add: tr)
  qed
qed

text \<open>
  Claim C9: across every sequence of operations on an open Pager, \<open>num_pages\<close> is
  monotonically non-decreasing and always at least 1 plus the highest page number
  ever fetched through \<open>get_page\<close>.

  The pager is the one \<open>pager_open\<close> returns, \<open>xs\<close> any sequence of \<open>get_page\<close> and
  \<open>pager_flush\<close> calls none of which stops the program, and \<open>trace\<close> the pager after each
  of them. The page counts along the trace never decrease, and after any number
  \<open>n\<close> of the operations the count exceeds every page number fetched by then.
\<close>

theorem num_pages_monotone:
  assumes "pager_open env = Inr pgr" and "pager_run env pgr xs = Inr trace"
  shows "sorted (map num_pages (pgr # trace))
         \<and> (\<forall>n \<le> length xs. \<forall>p \<in> set (fetched (take n xs)).
               p + 1 \<le> num_pages ((pgr # trace) ! n))"
proof -
  note inv = pager_open_inv [OF assms(1)]
  from pager_run_inv [OF inv assms(2)]
  have len: "length trace = length xs" and srt: "sorted (map num_pages (pgr # trace))"
    by simp_all
  have "p + 1 \<le> num_pages ((pgr # trace) ! n)"
    if n: "n \<le> length xs" and p: "p \<in> set (fetched (take n xs))" for n p
  proof -
    from pager_run_inv [OF inv pager_run_take [OF assms(2), of n]] p
    have "p + 1 \<le> num_pages (last (pgr # take n trace))" by blast
    moreover have "last (pgr # take n trace) = (pgr # trace) ! n"
    proof (cases n)
      case 0
      then show ?thesis by simp
    next
      case (Suc k)
      with n len have "k < length trace" by simp
      then have "take (Suc k) trace \<noteq> []" and "last (take (Suc k) trace) = trace ! k"
        by (auto simp: take_Suc_conv_app_nth)
      then show ?thesis by (simp add: Suc)
    qed
    ultimately show ?thesis by simp
  qed
  with srt show ?thesis by blast
qed

theorem num_pages_monotone_witness:
  "pager_open (example_Env 0) = Inr empty_Pager
   \<and> (\<exists>trace. pager_run (example_Env 0) empty_Pager
                 [Get_page 0, Get_page 5, Pager_flush 5, Get_page 2] = Inr trace
        \<and> map num_pages (empty_Pager # trace) = [0, 1, 6, 6, 6]
        \<and> sorted (map num_pages (empty_Pager # trace))
        \<and> 5 + 1 \<le> num_pages ((empty_Pager # trace) ! 2))"
proof -
  let ?xs = "[Get_page 0, Get_page 5, Pager_flush 5, Get_page 2]"
  have h1: "pager_open (example_Env 0) = Inr empty_Pager"
    by (simp add: pager_open_def example_Env_def empty_Pager_def to_int_def
        PAGE_SIZE_def Let_def)
  have "\<exists>trace. pager_run (example_Env 0) empty_Pager ?xs = Inr trace
          \<and> map num_pages (empty_Pager # trace) = [0, 1, 6, 6, 6]"
    by (simp add: get_page_def pager_flush_def example_Env_def empty_Pager_def
        file_num_pages_def TABLE_MAX_PAGES_def PAGE_SIZE_def read_into_def Let_def)
  then obtain trace where h2: "pager_run (example_Env 0) empty_Pager ?xs = Inr trace"
    and m: "map num_pages (empty_Pager # trace) = [0, 1, 6, 6, 6]" by (elim exE conjE)
  from num_pages_monotone [OF h1 h2]
  have srt: "sorted (map num_pages (empty_Pager # trace))"
    and al: "\<forall>n \<le> length ?xs. \<forall>p \<in> set (fetched (take n ?xs)).
               p + 1 \<le> num_pages ((empty_Pager # trace) ! n)"
    by blast+
  have "(2::nat) \<le> length ?xs" and "5 \<in> set (fetched (take 2 ?xs))"
    by (simp_all add: numeral_2_eq_2)
  with al have five: "5 + 1 \<le> num_pages ((empty_Pager # trace) ! 2)" by blast
  show ?thesis
    apply (rule conjI)
     apply (rule h1)
    apply (rule exI [of _ trace])
    apply (intro conjI)
       apply (rule h2)
      apply (rule m)
     apply (rule srt)
    apply (rule five)
    done
qed

section \<open>Search in a leaf\<close>

lemma sdiv_nonneg: "0 \<le> k \<Longrightarrow> 0 < l \<Longrightarrow> k sdiv l = k div (l::int)"
  by (cases "k = 0") (simp_all add: signed_divide_int_def sgn_if)

lemma leaf_node_find_loop_correct:
  assumes keys: "\<forall>i < length ks. load_int node (leaf_node_key (int i)) = Inr (ks ! i)"
    and srt: "sorted_wrt (<) ks"
    and small: "int (length ks) \<le> 1073741823"
  shows "0 \<le> lo \<Longrightarrow> lo \<le> hi \<Longrightarrow> hi \<le> int (length ks)
     \<Longrightarrow> \<forall>i. int i < lo \<longrightarrow> ks ! i < key
     \<Longrightarrow> \<forall>i < length ks. hi \<le> int i \<longrightarrow> key < ks ! i
     \<Longrightarrow> \<exists>c. leaf_node_find_loop node key lo hi = Some (Inr c) \<and> lo \<le> c \<and> c \<le> hi
           \<and> (\<forall>i < length ks. ks ! i < key \<longleftrightarrow> int i < c)"
proof (induction "nat (hi - lo)" arbitrary: lo hi rule: less_induct)
  case less
  note lo = \<open>0 \<le> lo\<close> and le = \<open>lo \<le> hi\<close> and hi = \<open>hi \<le> int (length ks)\<close>
  note below = \<open>\<forall>i. int i < lo \<longrightarrow> ks ! i < key\<close>
  note above = \<open>\<forall>i < length ks. hi \<le> int i \<longrightarrow> key < ks ! i\<close>
  have mono: "ks ! i < ks ! j" if "i < j" "j < length ks" for i j
    using srt that by (simp add: sorted_wrt_iff_nth_less)
  show ?case
  proof (cases "hi = lo")
    case True
    have "ks ! i < key \<longleftrightarrow> int i < lo" if "i < length ks" for i
    proof (cases "int i < lo")
      case True
      with below show ?thesis by simp
    next
      case False
      with above that \<open>hi = lo\<close> have "key < ks ! i" by simp
      with False show ?thesis by simp
    qed
    with True show ?thesis
      by (subst leaf_node_find_loop.simps) simp
  next
    case False
    define index where "index = (lo + hi) div 2"
    from False le lo hi have idx: "lo \<le> index" "index < hi" "0 \<le> index"
      by (auto simp: index_def)
    with hi have il: "nat index < length ks" by simp
    have sd: "(lo + hi) sdiv 2 = index"
      using lo le by (simp add: index_def sdiv_nonneg)
    have nov: "\<not> (lo + hi > INT_MAX \<or> lo + hi < - INT_MAX - 1)"
      using lo le hi small by (simp add: INT_MAX_def)
    from keys il idx have rd: "load_int node (leaf_node_key index) = Inr (ks ! nat index)"
      by (metis int_nat_eq)
    have unfold: "leaf_node_find_loop node key lo hi =
        (if key = ks ! nat index then Some (Inr index)
         else if key < ks ! nat index then leaf_node_find_loop node key lo index
         else leaf_node_find_loop node key (index + 1) hi)"
      using False nov by (subst leaf_node_find_loop.simps) (simp add: sd rd Let_def)
    consider (eq) "key = ks ! nat index" | (lt) "key < ks ! nat index" | (gt) "ks ! nat index < key"
      by linarith
    then show ?thesis
    proof cases
      case eq
      then have r: "leaf_node_find_loop node key lo hi = Some (Inr index)"
        by (subst unfold) simp
      have "ks ! i < key \<longleftrightarrow> int i < index" if "i < length ks" for i
      proof (cases "i < nat index")
        case True
        with mono [of i "nat index"] il eq idx show ?thesis by simp
      next
        case False
        then have "i = nat index \<or> nat index < i" by auto
        then have "\<not> ks ! i < key"
          using mono [of "nat index" i] that eq by auto
        with False idx show ?thesis by simp
      qed
      with r idx show ?thesis by (intro exI [of _ index]) simp
    next
      case lt
      have above': "\<forall>i < length ks. index \<le> int i \<longrightarrow> key < ks ! i"
      proof (intro allI impI)
        fix i assume i: "i < length ks" "index \<le> int i"
        then have "i = nat index \<or> nat index < i" using idx by auto
        then show "key < ks ! i"
          using mono [of "nat index" i] i lt by auto
      qed
      have "nat (index - lo) < nat (hi - lo)" using idx by simp
      from less.hyps [OF this lo idx(1) _ below above'] idx hi
      obtain c where "leaf_node_find_loop node key lo index = Some (Inr c)"
        "lo \<le> c" "c \<le> index" "\<forall>i < length ks. ks ! i < key \<longleftrightarrow> int i < c"
        by auto
      with lt idx show ?thesis by (simp add: unfold)
    next
      case gt
      have below': "\<forall>i. int i < index + 1 \<longrightarrow> ks ! i < key"
      proof (intro allI impI)
        fix i assume i: "int i < index + 1"
        then have "i = nat index \<or> i < nat index" using idx by auto
        then show "ks ! i < key"
          using mono [of i "nat index"] il gt by auto
      qed
      have m: "nat (hi - (index + 1)) < nat (hi - lo)" using idx by simp
      have "0 \<le> index + 1" "index + 1 \<le> hi" using idx by simp_all
      from less.hyps [OF m this hi below' above]
      obtain c where "leaf_node_find_loop node key (index + 1) hi = Some (Inr c)"
        "index + 1 \<le> c" "c \<le> hi" "\<forall>i < length ks. ks ! i < key \<longleftrightarrow> int i < c"
        by auto
      with gt idx show ?thesis by (simp add: unfold)
    qed
  qed
qed


lemma leaf_keys_nth:
  assumes "leaf_keys node n = map Inr ks"
  shows "length ks = nat n"
    and "\<forall>i < length ks. load_int node (leaf_node_key (int i)) = Inr (ks ! i)"
proof -
  from assms have "length (leaf_keys node n) = length ks" by simp
  then show l: "length ks = nat n" by (simp add: leaf_keys_def)
  show "\<forall>i < length ks. load_int node (leaf_node_key (int i)) = Inr (ks ! i)"
  proof (intro allI impI)
    fix i assume i: "i < length ks"
    with l have "load_int node (leaf_node_key (int i)) = leaf_keys node n ! i"
      by (simp add: leaf_keys_def)
    also have "\<dots> = map Inr ks ! i" by (simp only: assms)
    also from i have "\<dots> = Inr (ks ! i)" by simp
    finally show "load_int node (leaf_node_key (int i)) = Inr (ks ! i)" .
  qed
qed

lemma leaf_node_find_aux:
  assumes g: "get_page env (pager table) pnum = Inr (node, pgr)"
    and nc: "load_int node leaf_node_num_cells = Inr n"
    and n: "0 \<le> n" "n \<le> LEAF_NODE_MAX_CELLS"
    and ks: "leaf_keys node n = map Inr ks"
    and srt: "sorted_wrt (<) ks"
  shows "\<exists>c. leaf_node_find env table pnum key
              = Some (Inr ((malloc_Cursor env)\<lparr>page_num := pnum, cell_num := c\<rparr>,
                          table\<lparr>pager := pgr\<rparr>))
           \<and> 0 \<le> c \<and> c \<le> n
           \<and> (\<forall>i < length ks. ks ! i < key \<longleftrightarrow> int i < c)
           \<and> (key \<in> set ks \<longrightarrow> c < n \<and> ks ! nat c = key)"
proof -
  note k = leaf_keys_nth [OF ks]
  from k(1) n have len: "int (length ks) = n" by simp
  with n have small: "int (length ks) \<le> 1073741823"
    by (simp add: LEAF_NODE_MAX_CELLS_value)
  have "\<exists>c. leaf_node_find_loop node key 0 n = Some (Inr c) \<and> 0 \<le> c \<and> c \<le> n
           \<and> (\<forall>i < length ks. ks ! i < key \<longleftrightarrow> int i < c)"
    using n(1) len by (intro leaf_node_find_loop_correct [OF k(2) srt small]) simp_all
  then obtain c where c: "leaf_node_find_loop node key 0 n = Some (Inr c)"
    and c0: "0 \<le> c" and cn: "c \<le> n"
    and ch: "\<forall>i < length ks. ks ! i < key \<longleftrightarrow> int i < c" by blast
  have mono: "ks ! i < ks ! j" if "i < j" "j < length ks" for i j
    using srt that by (simp add: sorted_wrt_iff_nth_less)
  have pres: "c < n \<and> ks ! nat c = key" if "key \<in> set ks"
  proof -
    from that obtain j where j: "j < length ks" "ks ! j = key"
      by (auto simp: in_set_conv_nth)
    with ch have cj: "c \<le> int j" by force
    with j len have lt: "c < n" by simp
    with c0 len have cl: "nat c < length ks" by simp
    with ch c0 have "\<not> ks ! nat c < key" by force
    moreover have "\<not> key < ks ! nat c"
    proof
      assume a: "key < ks ! nat c"
      with j have "nat c \<noteq> j" by auto
      with cj c0 have "nat c < j" by simp
      from mono [OF this j(1)] a j show False by simp
    qed
    ultimately show ?thesis using lt by simp
  qed
  from g nc c have "leaf_node_find env table pnum key
      = Some (Inr ((malloc_Cursor env)\<lparr>page_num := pnum, cell_num := c\<rparr>,
                  table\<lparr>pager := pgr\<rparr>))"
    by (simp add: leaf_node_find_def)
  with c0 cn ch pres show ?thesis by blast
qed

lemma get_page_again:
  assumes "get_page env pgr0 pnum = Inr (node, pgr)"
  shows "get_page env pgr pnum = Inr (node, pgr)"
proof (cases "pages pgr0 (nat pnum)")
  case (Some b)
  with assms have "pgr = pgr0" by (auto simp: get_page_def split: if_splits)
  with assms show ?thesis by simp
next
  case None
  with assms have "pages pgr (nat pnum) = Some node"
    by (auto simp: get_page_def Let_def split: if_splits sum.splits)
  moreover from assms have "\<not> pnum > TABLE_MAX_PAGES" "\<not> (pnum < 0 \<or> TABLE_MAX_PAGES \<le> pnum)"
    by (auto simp: get_page_def split: if_splits)
  ultimately show ?thesis by (simp add: get_page_def)
qed

lemma table_find_aux:
  assumes g: "get_page env (pager table) (root_page_num table) = Inr (node, pgr)"
    and ty: "get_node_type node = Inr NODE_LEAF"
    and nc: "load_int node leaf_node_num_cells = Inr n"
    and n: "0 \<le> n" "n \<le> LEAF_NODE_MAX_CELLS"
    and ks: "leaf_keys node n = map Inr ks"
    and srt: "sorted_wrt (<) ks"
  shows "\<exists>c. table_find env (table\<lparr>pager := pgr\<rparr>) key
              = Some (Inr ((malloc_Cursor env)\<lparr>page_num := root_page_num table, cell_num := c\<rparr>,
                          table\<lparr>pager := pgr\<rparr>))
           \<and> 0 \<le> c \<and> c \<le> n
           \<and> (\<forall>i < length ks. ks ! i < key \<longleftrightarrow> int i < c)
           \<and> (key \<in> set ks \<longrightarrow> c < n \<and> ks ! nat c = key)"
proof -
  let ?t = "table\<lparr>pager := pgr\<rparr>"
  have g': "get_page env (pager ?t) (root_page_num table) = Inr (node, pgr)"
    using get_page_again [OF g] by simp
  from leaf_node_find_aux [OF g' nc n ks srt, of key]
  obtain c where "leaf_node_find env ?t (root_page_num table) key
      = Some (Inr ((malloc_Cursor env)\<lparr>page_num := root_page_num table, cell_num := c\<rparr>, ?t))"
    and r: "0 \<le> c" "c \<le> n" "\<forall>i < length ks. ks ! i < key \<longleftrightarrow> int i < c"
      "key \<in> set ks \<longrightarrow> c < n \<and> ks ! nat c = key"
    by auto
  with g' ty have "table_find env ?t key
      = Some (Inr ((malloc_Cursor env)\<lparr>page_num := root_page_num table, cell_num := c\<rparr>, ?t))"
    by (simp add: table_find_def)
  with r show ?thesis by blast
qed

lemma length_example_leaf: "length (example_leaf n) = 4096"
  by (simp add: example_leaf_def)

lemma example_leaf_num_cells_3: "load_int (example_leaf 3) leaf_node_num_cells = Inr 3"
  by (simp add: example_leaf_def load_int_def load_def in_bounds_def leaf_node_num_cells_value)

lemma get_page_file:
  "length page0 = 4096 \<Longrightarrow>
   get_page (file_Env page0) (pager file_Table) 0
     = Inr (page0, (pager file_Table)\<lparr>pages := (pages (pager file_Table))(0 := Some page0)\<rparr>)"
  by (simp add: get_page_def file_Env_def example_Env_def file_Table_def file_num_pages_def
      TABLE_MAX_PAGES_def PAGE_SIZE_def read_into_def Let_def signed_divide_int_def signed_modulo_int_def)

lemma length_packed_cell: "length (packed_cell k) = 301"
  by (simp add: packed_cell_def)

lemma length_packed_leaf: "length ks \<le> 13 \<Longrightarrow> length (packed_leaf n ks) = 4096"
  by (simp add: packed_leaf_def length_concat o_def length_packed_cell sum_list_triv)

lemma packed_leaf_3:
  "packed_leaf 3 [10, 20, 30] =
     [1, 0, 0, 0, 0, 0, 0, 0, 0, 0, 0, 0, 3, 0, 0, 0]
     @ ([10, 0, 0, 0, 10, 0, 0, 0, 0, 0, 0, 0] @ replicate 289 0)
     @ ([20, 0, 0, 0, 20, 0, 0, 0, 0, 0, 0, 0] @ replicate 289 0)
     @ ([30, 0, 0, 0, 30, 0, 0, 0, 0, 0, 0, 0] @ replicate 289 0)
     @ replicate 3177 0"
  by (simp add: packed_leaf_def packed_cell_def)

lemma packed_leaf_3_num_cells: "load_int (packed_leaf 3 [10, 20, 30]) leaf_node_num_cells = Inr 3"
  by (simp add: packed_leaf_3 load_int_def load_def in_bounds_def leaf_node_num_cells_value)


lemma packed_leaf_3_spec_keys:
  "spec_leaf_keys (packed_leaf 3 [10, 20, 30]) 3 = map Inr [10, 20, 30]"
proof -
  have "[0..<3] = [0, 1, 2 :: nat]" by (simp add: eval_nat_numeral)
  then show ?thesis
    by (simp add: spec_leaf_keys_def packed_leaf_3 load_int_def load_def in_bounds_def
        LEAF_NODE_HEADER_SIZE_value LEAF_NODE_CELL_SIZE_value)
qed

lemma packed_leaf_3_key_0: "load_int (packed_leaf 3 [10, 20, 30]) (leaf_node_key 0) = Inr 20"
  by (simp add: packed_leaf_3 load_int_def load_def in_bounds_def leaf_node_key_value)

lemma packed_leaf_3_key_1:
  "load_int (packed_leaf 3 [10, 20, 30]) (leaf_node_key 1) = Inr 335544320"
  by (simp add: packed_leaf_3 load_int_def load_def in_bounds_def leaf_node_key_value)

lemma packed_leaf_3_find_loop_20:
  "leaf_node_find_loop (packed_leaf 3 [10, 20, 30]) 20 0 3 = Some (Inr 0)"
proof -
  have s: "(3::int) sdiv 2 = 1" "(1::int) sdiv 2 = 0" by (simp_all add: signed_divide_int_def)
  have "leaf_node_find_loop (packed_leaf 3 [10, 20, 30]) 20 0 1 = Some (Inr 0)"
    by (subst leaf_node_find_loop.simps) (simp add: INT_MAX_def s packed_leaf_3_key_0)
  then show ?thesis
    by (subst leaf_node_find_loop.simps) (simp add: INT_MAX_def s packed_leaf_3_key_1)
qed

lemma packed_leaf_3_find_loop_30:
  "leaf_node_find_loop (packed_leaf 3 [10, 20, 30]) 30 0 3 = Some (Inr 1)"
proof -
  have s: "(3::int) sdiv 2 = 1" "(1::int) sdiv 2 = 0" by (simp_all add: signed_divide_int_def)
  have "leaf_node_find_loop (packed_leaf 3 [10, 20, 30]) 30 1 1 = Some (Inr 1)"
    by (subst leaf_node_find_loop.simps) simp
  then have "leaf_node_find_loop (packed_leaf 3 [10, 20, 30]) 30 0 1 = Some (Inr 1)"
    by (subst leaf_node_find_loop.simps) (simp add: INT_MAX_def s packed_leaf_3_key_0)
  then show ?thesis
    by (subst leaf_node_find_loop.simps) (simp add: INT_MAX_def s packed_leaf_3_key_1)
qed

lemma get_page_packed_3:
  "get_page (file_Env (packed_leaf 3 [10, 20, 30])) (pager file_Table) 0
     = Inr (packed_leaf 3 [10, 20, 30],
            (pager file_Table)\<lparr>pages := (pages (pager file_Table))(0 := Some (packed_leaf 3 [10, 20, 30]))\<rparr>)"
  by (rule get_page_file) (simp add: length_packed_leaf)

text \<open>
  Claim C5 says that for every leaf page whose keys are sorted strictly ascending
  and every search key, the binary search of \<open>leaf_node_find\<close> positions the cursor
  exactly on the slot holding the key when the key is present, and otherwise on the
  smallest slot whose key is greater. The search probes slot \<open>index\<close> through
  \<open>leaf_node_key\<close>, at byte \<open>317 + index\<close> of the page, and not at the place of cell
  \<open>index\<close>. On the leaf page with the three cells of keys 10, 20, 30 (cell count 3,
  the keys ascending where the file format places them) the search for 20, which
  is in slot 1, puts the cursor on slot 0, and the search for 30, which is in slot
  2, puts it on slot 1.
\<close>

theorem leaf_node_find_misses_packed_keys:
  "load_int (packed_leaf 3 [10, 20, 30]) leaf_node_num_cells = Inr 3
   \<and> spec_leaf_keys (packed_leaf 3 [10, 20, 30]) 3 = map Inr [10, 20, 30]
   \<and> leaf_node_find (file_Env (packed_leaf 3 [10, 20, 30])) file_Table 0 20
       = Some (Inr ((malloc_Cursor (file_Env (packed_leaf 3 [10, 20, 30])))\<lparr>page_num := 0, cell_num := 0\<rparr>,
            file_Table\<lparr>pager := (pager file_Table)\<lparr>pages :=
              (pages (pager file_Table))(0 := Some (packed_leaf 3 [10, 20, 30]))\<rparr>\<rparr>))
   \<and> leaf_node_find (file_Env (packed_leaf 3 [10, 20, 30])) file_Table 0 30
       = Some (Inr ((malloc_Cursor (file_Env (packed_leaf 3 [10, 20, 30])))\<lparr>page_num := 0, cell_num := 1\<rparr>,
            file_Table\<lparr>pager := (pager file_Table)\<lparr>pages :=
              (pages (pager file_Table))(0 := Some (packed_leaf 3 [10, 20, 30]))\<rparr>\<rparr>))"
  by (simp add: leaf_node_find_def get_page_packed_3 packed_leaf_3_num_cells
      packed_leaf_3_spec_keys packed_leaf_3_find_loop_20 packed_leaf_3_find_loop_30)

section \<open>Inserting\<close>









lemma db_open_new:
  "db_open (example_Env 0) = Inr new_Table"
  apply (simp add: db_open_def pager_open_def example_Env_def empty_Pager_def to_int_def
      PAGE_SIZE_def Let_def get_page_def file_num_pages_def TABLE_MAX_PAGES_def read_into_def
      initialize_leaf_node_def set_node_type_def store_int_def store_def in_bounds_def
      encode_le_4 NODE_TYPE_OFFSET_def NODE_LEAF_def leaf_node_num_cells_value new_Table_def new_leaf_def)
  done

lemma execute_insert_no_store:
  assumes "execute_insert env statement table = Some (Inr (r, table'))"
  shows "\<exists>node pgr. get_page env (pager table) (root_page_num table) = Inr (node, pgr)
           \<and> table' = table\<lparr>pager := pgr\<rparr>"
proof -
  from assms obtain node pgr where g: "get_page env (pager table) (root_page_num table) = Inr (node, pgr)"
    by (auto simp: execute_insert_def split: sum.splits)
  note g' = get_page_again [OF g]
  have tf: "table' = table\<lparr>pager := pgr\<rparr>"
    if "table_find env (table\<lparr>pager := pgr\<rparr>) k = Some (Inr (c, table'))" for k c
    using that g'
    by (auto simp: table_find_def leaf_node_find_def split: sum.splits if_splits option.splits)
  from assms g have "table' = table\<lparr>pager := pgr\<rparr>"
    by (auto simp: execute_insert_def Let_def split: sum.splits if_splits option.splits dest: tf)
  with g show ?thesis by blast
qed

lemma new_Table_root:
  "get_page env (pager new_Table) (root_page_num new_Table) = Inr (new_leaf, pager new_Table)"
  by (simp add: get_page_def new_Table_def TABLE_MAX_PAGES_def)

lemma new_leaf_num_cells: "load_int new_leaf leaf_node_num_cells = Inr 0"
  by (simp add: new_leaf_def load_int_def load_def in_bounds_def leaf_node_num_cells_value
      decode_le_replicate_0 decode_le_append)

lemma new_leaf_type: "get_node_type new_leaf = Inr NODE_LEAF"
  by (simp add: new_leaf_def get_node_type_def load_int_def load_def in_bounds_def
      NODE_TYPE_OFFSET_def NODE_LEAF_def)

lemma execute_insert_new_Table:
  "execute_insert env statement new_Table = Some (Inr (EXECUTE_SUCCESS, new_Table))"
proof -
  let ?key = "to_int (uint (id_Row (row_to_insert statement)))"
  have e: "new_Table\<lparr>pager := pager new_Table\<rparr> = new_Table" by simp
  have k: "leaf_keys new_leaf 0 = map Inr []" by (simp add: leaf_keys_def)
  from table_find_aux [OF new_Table_root new_leaf_type new_leaf_num_cells _ _ k, of env ?key]
  obtain c where "table_find env new_Table ?key
      = Some (Inr ((malloc_Cursor env)\<lparr>page_num := root_page_num new_Table, cell_num := c\<rparr>, new_Table))"
    and "0 \<le> c" "c \<le> 0"
    by (auto simp: LEAF_NODE_MAX_CELLS_value e)
  then show ?thesis
    by (simp add: execute_insert_def new_Table_root new_leaf_num_cells
        LEAF_NODE_MAX_CELLS_value Let_def)
qed

text \<open>
  Claim C1 says that a successful insert into a root leaf with room, of a key not
  yet present, shifts the cells from the insertion slot on, writes the new key and
  row at the freed slot and increments the cell count, so that the row is present
  afterwards. \<open>execute_insert\<close> returns \<^verbatim>\<open>EXECUTE_SUCCESS\<close> without storing
  anything (\<open>execute_insert_no_store\<close>: the table it returns is the table it got,
  with the root page fetched). On the table of a new database, inserting the row
  with id 1 succeeds and returns the same table: the root leaf still has cell
  count 0.
\<close>

theorem execute_insert_stores_nothing:
  "db_open (example_Env 0) = Inr new_Table
   \<and> execute_insert (example_Env 0) (insert_Statement 1) new_Table
       = Some (Inr (EXECUTE_SUCCESS, new_Table))
   \<and> pages (pager new_Table) (nat (root_page_num new_Table)) = Some new_leaf
   \<and> load_int new_leaf leaf_node_num_cells = Inr 0"
  using db_open_new execute_insert_new_Table [of "example_Env 0" "insert_Statement 1"]
    new_leaf_num_cells
  by (simp add: new_Table_def)

section \<open>Selecting\<close>

lemma execute_select_loop_stuck:
  assumes "execute_select_loop env table cursor out = Some y"
  shows "end_of_table cursor \<or> (\<exists>e. y = Inl e)"
proof (rule execute_select_loop.raw_induct
    [where P = "\<lambda>env table cursor out y. end_of_table cursor \<or> (\<exists>e. y = Inl e)", OF _ assms],
    goal_cases)
  case (1 f env table cursor out y)
  from 1(2) show ?case
    by (auto split: if_splits sum.splits prod.splits dest: 1(1))
qed

lemma execute_select_loop_diverges:
  assumes g: "get_page env (pager table) (page_num cursor) = Inr (page, pager table)"
    and d: "deserialize_row page (leaf_node_value (cell_num cursor)) = Inr row"
    and e: "\<not> end_of_table cursor"
  shows "execute_select_loop env table cursor out = None"
proof -
  have cv: "cursor_value env table cursor
      = Inr ((page, leaf_node_value (cell_num cursor)), table)"
    using g by (simp add: cursor_value_def)
  have "\<not> (env' = env \<and> table' = table \<and> cursor' = cursor)"
    if "execute_select_loop env' table' cursor' out' = Some y" for env' table' cursor' out' y
  proof (rule execute_select_loop.raw_induct
      [where P = "\<lambda>env' table' cursor' out' y. \<not> (env' = env \<and> table' = table \<and> cursor' = cursor)",
        OF _ that], goal_cases)
    case (1 f env' table' cursor' out' y)
    show ?case
    proof
      assume a: "env' = env \<and> table' = table \<and> cursor' = cursor"
      with 1(2) e cv d have "f env table cursor (out' @ [row]) = Some y" by simp
      from 1(1) [OF this] show False by simp
    qed
  qed
  then have "execute_select_loop env table cursor out \<noteq> Some y" for y by blast
  then show ?thesis by (cases "execute_select_loop env table cursor out") auto
qed

lemma deserialize_row_Inr:
  "in_bounds m src ROW_SIZE \<Longrightarrow> \<exists>row. deserialize_row m src = Inr row"
  by (auto simp: deserialize_row_def load_def in_bounds_def row_layout_defs)

lemma execute_select_new_Table:
  "execute_select env statement new_Table = Some (Inr ((EXECUTE_SUCCESS, []), new_Table))"
proof -
  have "table_start env new_Table
      = Inr ((malloc_Cursor env)\<lparr>page_num := root_page_num new_Table, cell_num := 0,
               end_of_table := True\<rparr>, new_Table)"
    by (simp add: table_start_def new_Table_root new_leaf_num_cells Let_def)
  then show ?thesis
    by (subst execute_select_def) (simp add: execute_select_loop.simps)
qed

lemma execute_select_file_3:
  "execute_select (file_Env (example_leaf 3)) statement file_Table = None"
proof -
  let ?env = "file_Env (example_leaf 3)"
  let ?pgr = "(pager file_Table)\<lparr>pages := (pages (pager file_Table))(0 := Some (example_leaf 3))\<rparr>"
  let ?t = "file_Table\<lparr>pager := ?pgr\<rparr>"
  let ?c = "(malloc_Cursor ?env)\<lparr>page_num := 0, cell_num := 0, end_of_table := False\<rparr>"
  have r: "root_page_num file_Table = 0" by (simp add: file_Table_def)
  note g = get_page_file [OF length_example_leaf, of 3]
  have ts: "table_start ?env file_Table = Inr (?c, ?t)"
    by (simp add: table_start_def r g example_leaf_num_cells_3 Let_def)
  have g': "get_page ?env (pager ?t) (page_num ?c) = Inr (example_leaf 3, pager ?t)"
    using get_page_again [OF g] by simp
  have "in_bounds (example_leaf 3) (leaf_node_value (cell_num ?c)) ROW_SIZE"
    by (simp add: in_bounds_def length_example_leaf leaf_node_value_value ROW_SIZE_value)
  then obtain row where d: "deserialize_row (example_leaf 3) (leaf_node_value (cell_num ?c)) = Inr row"
    using deserialize_row_Inr by blast
  have "execute_select_loop ?env ?t ?c [] = None"
    by (rule execute_select_loop_diverges [OF g' d]) simp
  with ts show ?thesis by (simp add: execute_select_def)
qed

text \<open>
  Claim C2 says that after any sequence of successful inserts with distinct keys,
  select_all starts a cursor at table start, repeatedly advances it and yields
  exactly the inserted rows in ascending key order, terminating at end-of-table.
  On the table of a new database, after the successful insert of the row with id
  1, \<open>execute_select\<close> yields no row. And the loop of \<open>execute_select\<close> never advances
  its cursor (\<open>execute_select_loop_stuck\<close>: it returns normally only from a cursor
  that is at the end of the table when the loop is entered): on the table of a file
  whose root leaf holds three cells, \<open>execute_select\<close> does not return.
\<close>

theorem execute_select_misses_rows:
  "db_open (example_Env 0) = Inr new_Table
   \<and> execute_insert (example_Env 0) (insert_Statement 1) new_Table
       = Some (Inr (EXECUTE_SUCCESS, new_Table))
   \<and> execute_select (example_Env 0) select_Statement new_Table
       = Some (Inr ((EXECUTE_SUCCESS, []), new_Table))
   \<and> db_open (file_Env (example_leaf 3)) = Inr file_Table
   \<and> load_int (example_leaf 3) leaf_node_num_cells = Inr 3
   \<and> execute_select (file_Env (example_leaf 3)) select_Statement file_Table = None"
proof -
  have "db_open (file_Env (example_leaf 3)) = Inr file_Table"
    by (simp add: db_open_def pager_open_def file_Env_def example_Env_def empty_Pager_def
        file_Table_def to_int_def PAGE_SIZE_def Let_def signed_divide_int_def
        signed_modulo_int_def)
  with db_open_new execute_insert_new_Table execute_select_new_Table execute_select_file_3
    example_leaf_num_cells_3
  show ?thesis by (intro conjI)
qed

end
